theory Spec2Isabelle
  imports Main
begin

section \<open>JavaScript strings\<close>

text \<open>
  A JavaScript string is a sequence of UTF-16 code units. Message texts and keyword
  phrases are modelled as lists of code units (natural numbers); identifiers that the
  code only compares or searches (phone numbers, type codes, error messages) are
  ordinary \<open>string\<close>s.
\<close>

type_synonym jstring = "nat list"

definition js :: "string \<Rightarrow> jstring" where
  "js s = map of_char s"

text \<open>\<open>String.prototype.includes\<close>: the argument occurs as a contiguous run.\<close>

fun is_prefix :: "'a list \<Rightarrow> 'a list \<Rightarrow> bool" where
  "is_prefix [] ys = True"
| "is_prefix (x # xs) [] = False"
| "is_prefix (x # xs) (y # ys) = (x = y \<and> is_prefix xs ys)"

fun includes_js :: "'a list \<Rightarrow> 'a list \<Rightarrow> bool" where
  "includes_js [] sub = (sub = [])"
| "includes_js (c # cs) sub = (is_prefix sub (c # cs) \<or> includes_js cs sub)"

text \<open>
  \<open>String.prototype.split\<close> with a one-unit separator: the pieces between the
  separators, empty pieces included; the empty string splits into one empty piece.
\<close>

fun split :: "'a \<Rightarrow> 'a list \<Rightarrow> 'a list list" where
  "split sep [] = [[]]"
| "split sep (c # cs) =
     (if c = sep then [] # split sep cs
      else (case split sep cs of [] \<Rightarrow> [[c]] | w # ws \<Rightarrow> (c # w) # ws))"

section \<open>Text normalisation (utils/keyword-matcher.js)\<close>

text \<open>
  \<open>normalizeText\<close> chains six steps: \<open>toLowerCase\<close>, \<open>normalize('NFD')\<close>, three
  regular-expression replacements (the marks U+0300 to U+036F are deleted, a fixed set of
  punctuation becomes a space, every run of \<open>\s\<close> becomes one space) and \<open>trim\<close>.
  \<open>toLowerCase\<close> and \<open>normalize\<close> follow the Unicode character database, which is
  tabulated here for Basic Latin and the Latin-1 Supplement (U+0000 to U+00FF), for the
  Combining Diacritical Marks (U+0300 to U+036F) and for the two marks U+0483 and U+0591.
  Every other code unit is taken to have no case mapping, no canonical decomposition and
  combining class 0. The tables serve to evaluate the function on examples; what holds of
  the normalisation of arbitrary strings is stated for \<open>normalizeText_with\<close> below, which
  takes the two methods as parameters.
\<close>

definition lower_cu :: "nat \<Rightarrow> nat" where
  "lower_cu c =
     (if (0x41 \<le> c \<and> c \<le> 0x5A) \<or> (0xC0 \<le> c \<and> c \<le> 0xDE \<and> c \<noteq> 0xD7)
      then c + 0x20 else c)"

definition toLowerCase :: "jstring \<Rightarrow> jstring" where
  "toLowerCase s = map lower_cu s"

text \<open>Canonical decompositions (full, as NFD applies them).\<close>

definition decomp_table :: "(nat \<times> nat list) list" where
  "decomp_table =
    [(0xC0, [0x41, 0x300]), (0xC1, [0x41, 0x301]), (0xC2, [0x41, 0x302]),
     (0xC3, [0x41, 0x303]), (0xC4, [0x41, 0x308]), (0xC5, [0x41, 0x30A]),
     (0xC7, [0x43, 0x327]),
     (0xC8, [0x45, 0x300]), (0xC9, [0x45, 0x301]), (0xCA, [0x45, 0x302]),
     (0xCB, [0x45, 0x308]),
     (0xCC, [0x49, 0x300]), (0xCD, [0x49, 0x301]), (0xCE, [0x49, 0x302]),
     (0xCF, [0x49, 0x308]),
     (0xD1, [0x4E, 0x303]),
     (0xD2, [0x4F, 0x300]), (0xD3, [0x4F, 0x301]), (0xD4, [0x4F, 0x302]),
     (0xD5, [0x4F, 0x303]), (0xD6, [0x4F, 0x308]),
     (0xD9, [0x55, 0x300]), (0xDA, [0x55, 0x301]), (0xDB, [0x55, 0x302]),
     (0xDC, [0x55, 0x308]), (0xDD, [0x59, 0x301]),
     (0xE0, [0x61, 0x300]), (0xE1, [0x61, 0x301]), (0xE2, [0x61, 0x302]),
     (0xE3, [0x61, 0x303]), (0xE4, [0x61, 0x308]), (0xE5, [0x61, 0x30A]),
     (0xE7, [0x63, 0x327]),
     (0xE8, [0x65, 0x300]), (0xE9, [0x65, 0x301]), (0xEA, [0x65, 0x302]),
     (0xEB, [0x65, 0x308]),
     (0xEC, [0x69, 0x300]), (0xED, [0x69, 0x301]), (0xEE, [0x69, 0x302]),
     (0xEF, [0x69, 0x308]),
     (0xF1, [0x6E, 0x303]),
     (0xF2, [0x6F, 0x300]), (0xF3, [0x6F, 0x301]), (0xF4, [0x6F, 0x302]),
     (0xF5, [0x6F, 0x303]), (0xF6, [0x6F, 0x308]),
     (0xF9, [0x75, 0x300]), (0xFA, [0x75, 0x301]), (0xFB, [0x75, 0x302]),
     (0xFC, [0x75, 0x308]), (0xFD, [0x79, 0x301]), (0xFF, [0x79, 0x308]),
     (0x340, [0x300]), (0x341, [0x301]), (0x343, [0x313]), (0x344, [0x308, 0x301])]"

definition decomp :: "nat \<Rightarrow> nat list" where
  "decomp c = (case map_of decomp_table c of Some ds \<Rightarrow> ds | None \<Rightarrow> [c])"

text \<open>Canonical combining classes; 0 marks a starter.\<close>

definition ccc :: "nat \<Rightarrow> nat" where
  "ccc c =
     (if c < 0x300 then 0
      else if c \<le> 0x314 then 230 else if c = 0x315 then 232
      else if c \<le> 0x319 then 220 else if c = 0x31A then 232
      else if c = 0x31B then 216 else if c \<le> 0x320 then 220
      else if c \<le> 0x322 then 202 else if c \<le> 0x326 then 220
      else if c \<le> 0x328 then 202 else if c \<le> 0x333 then 220
      else if c \<le> 0x338 then 1 else if c \<le> 0x33C then 220
      else if c \<le> 0x344 then 230 else if c = 0x345 then 240
      else if c = 0x346 then 230 else if c \<le> 0x349 then 220
      else if c \<le> 0x34C then 230 else if c \<le> 0x34E then 220
      else if c = 0x34F then 0
      else if c \<le> 0x352 then 230 else if c \<le> 0x356 then 220
      else if c = 0x357 then 230 else if c = 0x358 then 232
      else if c \<le> 0x35A then 220 else if c = 0x35B then 230
      else if c = 0x35C then 233 else if c \<le> 0x35E then 234
      else if c = 0x35F then 233 else if c \<le> 0x361 then 234
      else if c = 0x362 then 233 else if c \<le> 0x36F then 230
      else if c = 0x483 then 230 else if c = 0x591 then 220
      else 0)"

text \<open>
  Canonical ordering: inside every maximal run of non-starters the marks are sorted by
  combining class, marks of one class keeping their order. \<open>insert_mark\<close> places a mark
  in front of an already ordered remainder.
\<close>

fun insert_mark :: "nat \<Rightarrow> nat list \<Rightarrow> nat list" where
  "insert_mark c [] = [c]"
| "insert_mark c (d # ds) =
     (if ccc d \<noteq> 0 \<and> ccc d < ccc c then d # insert_mark c ds else c # d # ds)"

fun reorder :: "nat list \<Rightarrow> nat list" where
  "reorder [] = []"
| "reorder (c # cs) = (if ccc c = 0 then c # reorder cs else insert_mark c (reorder cs))"

definition nfd :: "jstring \<Rightarrow> jstring" where
  "nfd s = reorder (concat (map decomp s))"

text \<open>The class of the first replacement: U+0300 to U+036F.\<close>

definition is_mark :: "nat \<Rightarrow> bool" where
  "is_mark c = (0x300 \<le> c \<and> c \<le> 0x36F)"

text \<open>The punctuation class of the second replacement, with the code unit of each member.\<close>

definition is_punct :: "nat \<Rightarrow> bool" where
  "is_punct c = (c \<in> set [0xA1, 0x21, 0xBF, 0x3F, 0x2E, 0x2C, 0x3B, 0x3A, 0x28, 0x29,
                           0x5B, 0x5D, 0x7B, 0x7D, 0x27, 0x22, 0xB4, 0x60, 0x7E, 0x2D])"

text \<open>The class \<open>\s\<close>, which is also what \<open>trim\<close> removes: white space and line terminators.\<close>

definition is_space :: "nat \<Rightarrow> bool" where
  "is_space c = (c \<in> set [0x09, 0x0A, 0x0B, 0x0C, 0x0D, 0x20, 0xA0, 0x1680,
                           0x2028, 0x2029, 0x202F, 0x205F, 0x3000, 0xFEFF]
                 \<or> (0x2000 \<le> c \<and> c \<le> 0x200A))"

text \<open>\<open>replace(/\s+/g, ' ')\<close>: every maximal run of white space becomes one space.\<close>

function collapse_ws :: "jstring \<Rightarrow> jstring" where
  "collapse_ws [] = []"
| "collapse_ws (c # cs) =
     (if is_space c then 0x20 # collapse_ws (dropWhile is_space cs)
      else c # collapse_ws cs)"
  by pat_completeness auto
termination
  by (relation "measure length") (auto simp: length_dropWhile_le less_Suc_eq_le)

definition trim :: "jstring \<Rightarrow> jstring" where
  "trim s = rev (dropWhile is_space (rev (dropWhile is_space s)))"

definition normalizeText :: "jstring \<Rightarrow> jstring" where
  "normalizeText text =
     (if text = [] then []
      else trim (collapse_ws
             (map (\<lambda>c. if is_punct c then 0x20 else c)
               (filter (\<lambda>c. \<not> is_mark c) (nfd (toLowerCase text))))))"

text \<open>
  The same function with its two built-in methods as parameters: \<open>lower\<close> stands for
  \<open>String.prototype.toLowerCase\<close> and \<open>decompose\<close> for \<open>normalize('NFD')\<close>. What is
  proved of \<open>normalizeText_with\<close> from properties of \<open>lower\<close> and \<open>decompose\<close> holds of
  the function of the source under every version of the Unicode character database
  that gives the two methods these properties, and for every string, not only for the
  characters tabulated above.
\<close>

definition normalizeText_with ::
  "(jstring \<Rightarrow> jstring) \<Rightarrow> (jstring \<Rightarrow> jstring) \<Rightarrow> jstring \<Rightarrow> jstring" where
  "normalizeText_with lower decompose text =
     (if text = [] then []
      else trim (collapse_ws
             (map (\<lambda>c. if is_punct c then 0x20 else c)
               (filter (\<lambda>c. \<not> is_mark c) (decompose (lower text))))))"

text \<open>
  The two methods read a string as a sequence of code points (\<open>StringToCodePoints\<close> in
  ECMA-262): a leading surrogate directly followed by a trailing surrogate is one code
  point, and every other code unit, an unpaired surrogate included, is a code point by
  itself. The regular expressions of \<open>normalizeText\<close> have no \<open>u\<close> flag and work on the
  code units.
\<close>

definition is_leading :: "nat \<Rightarrow> bool" where
  "is_leading u = (0xD800 \<le> u \<and> u \<le> 0xDBFF)"

definition is_trailing :: "nat \<Rightarrow> bool" where
  "is_trailing u = (0xDC00 \<le> u \<and> u \<le> 0xDFFF)"

fun code_points :: "jstring \<Rightarrow> nat list" where
  "code_points [] = []"
| "code_points [u] = [u]"
| "code_points (u # v # s) =
     (if is_leading u \<and> is_trailing v
      then (0x10000 + (u - 0xD800) * 0x400 + (v - 0xDC00)) # code_points s
      else u # code_points (v # s))"

text \<open>A string is well formed if every surrogate in it belongs to such a pair.\<close>

fun well_formed :: "jstring \<Rightarrow> bool" where
  "well_formed [] = True"
| "well_formed [u] = (\<not> is_leading u \<and> \<not> is_trailing u)"
| "well_formed (u # v # s) =
     (if is_leading u then is_trailing v \<and> well_formed s
      else \<not> is_trailing u \<and> well_formed (v # s))"

text \<open>
  Canonical order, for the combining classes \<open>cls\<close>: no mark follows directly a
  character of a higher combining class. This is the order that canonical ordering
  establishes, and a text that is in this order is left as it is.
\<close>

fun canonically_ordered :: "(nat \<Rightarrow> nat) \<Rightarrow> nat list \<Rightarrow> bool" where
  "canonically_ordered cls [] = True"
| "canonically_ordered cls [a] = True"
| "canonically_ordered cls (a # b # s) =
     ((cls b = 0 \<or> cls a \<le> cls b) \<and> canonically_ordered cls (b # s))"

text \<open>The shape of a text in which \<open>replace(/\s+/g, ' ')\<close> finds nothing to change.\<close>

fun single_spaced :: "jstring \<Rightarrow> bool" where
  "single_spaced [] = True"
| "single_spaced (c # cs) =
     ((is_space c \<longrightarrow> c = 0x20 \<and> (cs = [] \<or> \<not> is_space (hd cs))) \<and> single_spaced cs)"

section \<open>Keyword matching (utils/keyword-matcher.js)\<close>

definition containsKeyword :: "jstring \<Rightarrow> jstring \<Rightarrow> bool" where
  "containsKeyword normalizedMessage normalizedKeyword =
     (if includes_js normalizedMessage normalizedKeyword then True
      else (let keywordWords = filter (\<lambda>w. length w > 0) (split 0x20 normalizedKeyword);
                messageWords = split 0x20 normalizedMessage
            in list_all (\<lambda>word. word \<in> set messageWords) keywordWords))"

datatype match_type = EXACT | KEYWORD | SYNONYM

record match_result =
  matched :: jstring
  mtype :: match_type

text \<open>
  The rule set is a parsed JSON document: each of the four fields may be missing or hold
  something that is not an array (\<open>None\<close>), and the value of a synonym key may be something
  other than an array (\<open>None\<close>). \<open>synonyms\<close> lists the keys in the order \<open>Object.entries\<close>
  yields them. The field \<open>keywords\<close> is written \<open>keywords_tk\<close>, and
  \<open>String.prototype.includes\<close> is written \<open>includes_js\<close>.
\<close>

record trigger_keywords =
  exact_matches :: "jstring list option"
  keywords_tk :: "jstring list option"
  synonyms :: "(jstring \<times> jstring list option) list option"
  excluded_words :: "jstring list option"

definition array_of :: "'a list option \<Rightarrow> 'a list" where
  "array_of field = (case field of None \<Rightarrow> [] | Some xs \<Rightarrow> xs)"

text \<open>The loop of step 1: some excluded word, normalised, occurs in the message.\<close>

definition excluded_hit :: "jstring \<Rightarrow> jstring list \<Rightarrow> bool" where
  "excluded_hit normalizedMessage excluded =
     list_ex (\<lambda>word. includes_js normalizedMessage (normalizeText word)) excluded"

text \<open>The loop of step 4: the main word first, then its synonyms, key by key.\<close>

fun match_synonyms :: "jstring \<Rightarrow> (jstring \<times> jstring list option) list \<Rightarrow> match_result option" where
  "match_synonyms normalizedMessage [] = None"
| "match_synonyms normalizedMessage ((mainWord, synonymList) # rest) =
     (if includes_js normalizedMessage (normalizeText mainWord)
      then Some \<lparr>matched = mainWord, mtype = SYNONYM\<rparr>
      else if list_ex (\<lambda>synonym. includes_js normalizedMessage (normalizeText synonym))
                (array_of synonymList)
      then Some \<lparr>matched = mainWord, mtype = SYNONYM\<rparr>
      else match_synonyms normalizedMessage rest)"

definition matchKeywords :: "jstring \<Rightarrow> trigger_keywords option \<Rightarrow> match_result option" where
  "matchKeywords messageText triggerKeywords =
     (case triggerKeywords of
        None \<Rightarrow> None
      | Some tk \<Rightarrow>
          if messageText = [] then None
          else let normalizedMessage = normalizeText messageText in
            if excluded_hit normalizedMessage (array_of (excluded_words tk))
            then None
            else (case find (\<lambda>phrase. containsKeyword normalizedMessage (normalizeText phrase))
                         (array_of (exact_matches tk)) of
                    Some phrase \<Rightarrow> Some \<lparr>matched = phrase, mtype = EXACT\<rparr>
                  | None \<Rightarrow>
                     (case find (\<lambda>keyword. containsKeyword normalizedMessage (normalizeText keyword))
                             (array_of (keywords_tk tk)) of
                        Some keyword \<Rightarrow> Some \<lparr>matched = keyword, mtype = KEYWORD\<rparr>
                      | None \<Rightarrow> match_synonyms normalizedMessage (array_of (synonyms tk)))))"

section \<open>The store, the transport and the clock\<close>

text \<open>
  The services talk to a MySQL database through \<open>db.query\<close>, to the chat client through
  \<open>client.sendMessage\<close> and to the media host through \<open>axios.get\<close>. Each table is a
  list of rows: a \<open>SELECT\<close> filters it, an \<open>UPDATE\<close> maps over it, an \<open>INSERT\<close>
  appends. A thrown \<open>Error\<close> is its message, a string of code units below 256.
  Every asynchronous call is awaited in sequence, so a computation is a function from the
  world to an outcome and the next world; \<open>sleep\<close> changes nothing that is modelled.
\<close>

type_synonym error = string

datatype query =
    Q_blocked_numbers | Q_select_rate_limit | Q_unblock | Q_upsert_rate_limit
  | Q_insert_conversation | Q_increment_sent | Q_active_conversation
  | Q_complete | Q_fail | Q_campaigns | Q_campaign_messages | Q_message_media
  | Q_log_sent | Q_log_failed

record rate_limit_row =
  user_phone :: string
  is_blocked :: bool
  blocked_until :: "int option"
  trigger_count_hour :: int
  trigger_count_day :: int
  trigger_count_total :: int
  last_trigger_at :: "int option"

datatype conv_status = INITIATED | IN_PROGRESS | COMPLETED | FAILED | CANCELLED

record conversation_row =
  conv_id :: nat
  conv_user_phone :: string
  conv_user_name :: jstring
  conv_campaign_id :: int
  trigger_message :: jstring
  matched_keyword :: jstring
  conv_match_type :: match_type
  corse :: "string option"
  conv_status :: conv_status
  messages_sent :: nat
  conversation_started_at :: int
  conversation_ended_at :: "int option"
  failure_reason :: "string option"

text \<open>
  What a send function hands back as the id of the sent message: the serialised id given
  by the client, or the placeholder \<open>GALLERY_\<close> followed by the current time.
\<close>

datatype whatsapp_id = Serialized string | Gallery_placeholder int

text \<open>The column \<open>delivery_status\<close>: \<open>'SENT'\<close> or \<open>'FAILED'\<close>.\<close>

datatype delivery_status = SENT | FAILED_TO_SEND

record log_row =
  log_conversation_id :: nat
  log_message_id :: int
  delivery_status :: delivery_status
  whatsapp_message_id :: "whatsapp_id option"
  error_message :: "error option"

text \<open>
  The column \<open>trigger_keywords\<close> holds a JSON text that may fail to parse, or a parsed
  document, which may be \<open>null\<close>.
\<close>

datatype keywords_column = Unparsable | Document "trigger_keywords option"

record campaign_row =
  campaign_id :: int
  campaign_name :: string
  trigger_keywords_col :: keywords_column
  priority :: int
  campaign_active :: bool
  campaign_deleted :: bool

text \<open>A row of \<open>messages\<close> joined with its \<open>message_types.type_code\<close>.\<close>

record message_row =
  msg_id :: int
  msg_campaign_id :: int
  type_code :: string
  content :: "jstring option"
  sort_order :: int
  delay_seconds :: int
  msg_active :: bool
  msg_deleted :: bool

record media_row =
  media_message_id :: int
  file_path :: string
  media_sort_order :: int
  mime_type :: "string option"
  media_deleted :: bool

datatype message_body =
    Text_body "jstring option"
  | Media_body string string string

record send_options =
  caption :: "jstring option"
  sendAudioAsVoice :: bool
  sendMediaAsDocument :: bool

record outgoing =
  recipient :: string
  body :: message_body
  options :: send_options

record world =
  blocked_numbers :: "string list"
  user_rate_limit :: "rate_limit_row list"
  bot_conversations :: "conversation_row list"
  bot_message_log :: "log_row list"
  campaigns :: "campaign_row list"
  messages :: "message_row list"
  message_media :: "media_row list"
  outbox :: "outgoing list"

text \<open>
  What the code cannot decide by itself: the clock, the configuration (\<open>config2\<close> is
  not part of the sources), which statement the database rejects, what the client and the
  media host answer. \<open>substitute\<close> is the regular-expression replacement inside
  \<open>replaceVariables\<close>; no property below depends on what it returns.
\<close>

record env =
  now :: int
  rateLimits_hour :: int
  rateLimits_day :: int
  frontendMediaUrl :: string
  query_error :: "world \<Rightarrow> query \<Rightarrow> error option"
  sendMessage_result :: "world \<Rightarrow> outgoing \<Rightarrow> error + string"
  http_get :: "world \<Rightarrow> string \<Rightarrow> error + string"
  getContact_result :: "world \<Rightarrow> error + (jstring option \<times> jstring option)"
  substitute :: "jstring \<Rightarrow> (string \<times> jstring) list \<Rightarrow> jstring"

text \<open>Sequencing of awaited calls: an exception skips what follows and keeps the world.\<close>

definition then_do ::
  "('e + 'a) \<times> 's \<Rightarrow> ('a \<Rightarrow> 's \<Rightarrow> ('e + 'b) \<times> 's) \<Rightarrow> ('e + 'b) \<times> 's" where
  "then_do r f = (case r of (Inl e, s) \<Rightarrow> (Inl e, s) | (Inr a, s) \<Rightarrow> f a s)"

definition db_query :: "env \<Rightarrow> world \<Rightarrow> query \<Rightarrow> (error + unit) \<times> world" where
  "db_query e w q = (case query_error e w q of Some err \<Rightarrow> (Inl err, w) | None \<Rightarrow> (Inr (), w))"

section \<open>Rate limiting (services/ratelimit.service.js)\<close>

datatype reason =
    BLOCKED_PERMANENT | BLOCKED_TEMPORARY | UNBLOCKED | NEW_USER
  | RATE_LIMIT_HOUR | RATE_LIMIT_DAY | OK | ERROR_CHECK

record rate_check =
  allowed :: bool
  reason :: reason

text \<open>The body of the \<open>try\<close> block of \<open>checkRateLimit\<close>.\<close>

definition checkRateLimit_try :: "env \<Rightarrow> world \<Rightarrow> string \<Rightarrow> (error + rate_check) \<times> world" where
  "checkRateLimit_try e w userPhone =
     then_do (db_query e w Q_blocked_numbers) (\<lambda>_ w.
       let blockedRows = filter (\<lambda>p. p = userPhone) (blocked_numbers w) in
       if length blockedRows > 0
       then (Inr \<lparr>allowed = False, reason = BLOCKED_PERMANENT\<rparr>, w)
       else then_do (db_query e w Q_select_rate_limit) (\<lambda>_ w.
         case filter (\<lambda>r. user_phone r = userPhone) (user_rate_limit w) of
           [] \<Rightarrow> (Inr \<lparr>allowed = True, reason = NEW_USER\<rparr>, w)
         | rateLimitData # _ \<Rightarrow>
             if is_blocked rateLimitData then
               (case blocked_until rateLimitData of
                  Some blockedUntil \<Rightarrow>
                    if now e > blockedUntil
                    then then_do (db_query e w Q_unblock) (\<lambda>_ w.
                           (Inr \<lparr>allowed = True, reason = UNBLOCKED\<rparr>,
                            w\<lparr>user_rate_limit :=
                                map (\<lambda>r. if user_phone r = userPhone
                                          then r\<lparr>is_blocked := False, blocked_until := None\<rparr>
                                          else r)
                                  (user_rate_limit w)\<rparr>))
                    else (Inr \<lparr>allowed = False, reason = BLOCKED_TEMPORARY\<rparr>, w)
                | None \<Rightarrow> (Inr \<lparr>allowed = False, reason = BLOCKED_TEMPORARY\<rparr>, w))
             else
               (case last_trigger_at rateLimitData of
                  Some lastTrigger \<Rightarrow>
                    let hourAgo = now e - 60 * 60 * 1000 in
                    if lastTrigger > hourAgo
                       \<and> trigger_count_hour rateLimitData \<ge> rateLimits_hour e
                    then (Inr \<lparr>allowed = False, reason = RATE_LIMIT_HOUR\<rparr>, w)
                    else
                      let dayAgo = now e - 24 * 60 * 60 * 1000 in
                      if lastTrigger > dayAgo
                         \<and> trigger_count_day rateLimitData \<ge> rateLimits_day e
                      then (Inr \<lparr>allowed = False, reason = RATE_LIMIT_DAY\<rparr>, w)
                      else (Inr \<lparr>allowed = True, reason = OK\<rparr>, w)
                | None \<Rightarrow> (Inr \<lparr>allowed = True, reason = OK\<rparr>, w))))"

text \<open>\<open>checkRateLimit\<close>: the \<open>catch\<close> turns every exception into an admission.\<close>

definition checkRateLimit :: "env \<Rightarrow> world \<Rightarrow> string \<Rightarrow> rate_check \<times> world" where
  "checkRateLimit e w userPhone =
     (case checkRateLimit_try e w userPhone of
        (Inr result, w') \<Rightarrow> (result, w')
      | (Inl error, w') \<Rightarrow> (\<lparr>allowed = True, reason = ERROR_CHECK\<rparr>, w'))"

text \<open>
  \<open>updateRateLimit\<close>: \<open>INSERT ... ON DUPLICATE KEY UPDATE\<close>. A comparison with a
  \<open>NULL\<close> \<open>last_trigger_at\<close> is not true, so the counter is incremented.
\<close>

definition updateRateLimit :: "env \<Rightarrow> world \<Rightarrow> string \<Rightarrow> (error + unit) \<times> world" where
  "updateRateLimit e w userPhone =
     then_do (db_query e w Q_upsert_rate_limit) (\<lambda>_ w.
       let hourAgo = now e - 60 * 60 * 1000;
           dayAgo = now e - 24 * 60 * 60 * 1000;
           before = (\<lambda>r t. case last_trigger_at r of None \<Rightarrow> False | Some l \<Rightarrow> l < t)
       in if list_ex (\<lambda>r. user_phone r = userPhone) (user_rate_limit w)
          then (Inr (), w\<lparr>user_rate_limit :=
                 map (\<lambda>r. if user_phone r = userPhone
                           then r\<lparr>trigger_count_hour :=
                                    (if before r hourAgo then 1 else trigger_count_hour r + 1),
                                  trigger_count_day :=
                                    (if before r dayAgo then 1 else trigger_count_day r + 1),
                                  trigger_count_total := trigger_count_total r + 1,
                                  last_trigger_at := Some (now e)\<rparr>
                           else r)
                   (user_rate_limit w)\<rparr>)
          else (Inr (), w\<lparr>user_rate_limit := user_rate_limit w @
                 [\<lparr>user_phone = userPhone, is_blocked = False, blocked_until = None,
                   trigger_count_hour = 1, trigger_count_day = 1, trigger_count_total = 1,
                   last_trigger_at = Some (now e)\<rparr>]\<rparr>))"

section \<open>Conversations (services/conversation.service.js)\<close>

definition createConversation ::
  "env \<Rightarrow> world \<Rightarrow> string \<Rightarrow> jstring \<Rightarrow> int \<Rightarrow> jstring \<Rightarrow> jstring \<Rightarrow> match_type
     \<Rightarrow> string option \<Rightarrow> (error + nat) \<times> world" where
  "createConversation e w userPhone userName campaignId triggerMessage matchedKeyword matchType
       line =
     then_do (db_query e w Q_insert_conversation) (\<lambda>_ w.
       let conversationId = Suc (fold max (map conv_id (bot_conversations w)) 0)
       in (Inr conversationId,
           w\<lparr>bot_conversations := bot_conversations w @
              [\<lparr>conv_id = conversationId, conv_user_phone = userPhone,
                conv_user_name = userName, conv_campaign_id = campaignId,
                trigger_message = triggerMessage, matched_keyword = matchedKeyword,
                conv_match_type = matchType, corse = line, conv_status = INITIATED,
                messages_sent = 0, conversation_started_at = now e,
                conversation_ended_at = None, failure_reason = None\<rparr>]\<rparr>))"

definition incrementMessagesSent :: "env \<Rightarrow> world \<Rightarrow> nat \<Rightarrow> (error + unit) \<times> world" where
  "incrementMessagesSent e w conversationId =
     then_do (db_query e w Q_increment_sent) (\<lambda>_ w.
       (Inr (), w\<lparr>bot_conversations :=
          map (\<lambda>c. if conv_id c = conversationId
                    then c\<lparr>messages_sent := messages_sent c + 1, conv_status := IN_PROGRESS\<rparr>
                    else c)
            (bot_conversations w)\<rparr>))"

text \<open>
  \<open>getActiveConversation\<close>: the newest row of the sender in \<open>INITIATED\<close> or
  \<open>IN_PROGRESS\<close>, of the given line if one is given.
\<close>

definition getActiveConversation ::
  "env \<Rightarrow> world \<Rightarrow> string \<Rightarrow> string option \<Rightarrow> (error + conversation_row option) \<times> world" where
  "getActiveConversation e w userPhone line =
     then_do (db_query e w Q_active_conversation) (\<lambda>_ w.
       let conversations =
             sort_key (\<lambda>c. - conversation_started_at c)
               (filter (\<lambda>c. conv_user_phone c = userPhone
                            \<and> conv_status c \<in> {INITIATED, IN_PROGRESS}
                            \<and> (case line of None \<Rightarrow> True
                                | Some l \<Rightarrow> l = [] \<or> corse c = Some l))
                  (bot_conversations w))
       in case conversations of [] \<Rightarrow> (Inr None, w) | c # _ \<Rightarrow> (Inr (Some c), w))"

definition completeConversation :: "env \<Rightarrow> world \<Rightarrow> nat \<Rightarrow> (error + unit) \<times> world" where
  "completeConversation e w conversationId =
     then_do (db_query e w Q_complete) (\<lambda>_ w.
       (Inr (), w\<lparr>bot_conversations :=
          map (\<lambda>c. if conv_id c = conversationId
                    then c\<lparr>conv_status := COMPLETED, conversation_ended_at := Some (now e)\<rparr>
                    else c)
            (bot_conversations w)\<rparr>))"

definition failConversation ::
  "env \<Rightarrow> world \<Rightarrow> nat \<Rightarrow> string option \<Rightarrow> (error + unit) \<times> world" where
  "failConversation e w conversationId why =
     then_do (db_query e w Q_fail) (\<lambda>_ w.
       (Inr (), w\<lparr>bot_conversations :=
          map (\<lambda>c. if conv_id c = conversationId
                    then c\<lparr>conv_status := FAILED, conversation_ended_at := Some (now e),
                           failure_reason := why\<rparr>
                    else c)
            (bot_conversations w)\<rparr>))"

section \<open>Campaign selection (services/campaign.service.js)\<close>

record campaign_match =
  campaignId :: int
  campaignName :: string
  matchedKeyword :: jstring
  matchType :: match_type
  match_priority :: int

text \<open>The loop over the active campaigns: a column that does not parse is skipped.\<close>

fun first_campaign_match :: "jstring \<Rightarrow> campaign_row list \<Rightarrow> campaign_match option" where
  "first_campaign_match messageText [] = None"
| "first_campaign_match messageText (campaign # rest) =
     (case trigger_keywords_col campaign of
        Unparsable \<Rightarrow> first_campaign_match messageText rest
      | Document triggerKeywords \<Rightarrow>
          (case matchKeywords messageText triggerKeywords of
             Some m \<Rightarrow>
               Some \<lparr>campaignId = campaign_id campaign, campaignName = campaign_name campaign,
                     matchedKeyword = matched m, matchType = mtype m,
                     match_priority = priority campaign\<rparr>
           | None \<Rightarrow> first_campaign_match messageText rest))"

text \<open>
  \<open>detectCampaign\<close>. \<open>ORDER BY priority DESC\<close> is modelled by a stable sort: campaigns
  of equal priority keep the order of the table.
\<close>

definition detectCampaign ::
  "env \<Rightarrow> world \<Rightarrow> jstring \<Rightarrow> (error + campaign_match option) \<times> world" where
  "detectCampaign e w messageText =
     (if messageText = [] \<or> length (trim messageText) = 0 then (Inr None, w)
      else then_do (db_query e w Q_campaigns) (\<lambda>_ w.
        let active = sort_key (\<lambda>c. - priority c)
                       (filter (\<lambda>c. campaign_active c \<and> \<not> campaign_deleted c) (campaigns w))
        in if length active = 0 then (Inr None, w)
           else (Inr (first_campaign_match messageText active), w)))"

section \<open>Message plans and their delivery (services/message.service.js)\<close>

text \<open>\<open>getCampaignMessages\<close>: the active messages of the campaign, \<open>ORDER BY sort_order ASC\<close>.\<close>

definition getCampaignMessages ::
  "env \<Rightarrow> world \<Rightarrow> int \<Rightarrow> (error + message_row list) \<times> world" where
  "getCampaignMessages e w cid =
     then_do (db_query e w Q_campaign_messages) (\<lambda>_ w.
       (Inr (sort_key sort_order
               (filter (\<lambda>m. msg_campaign_id m = cid \<and> msg_active m \<and> \<not> msg_deleted m)
                  (messages w))), w))"

definition getMessageMedia ::
  "env \<Rightarrow> world \<Rightarrow> int \<Rightarrow> (error + media_row list) \<times> world" where
  "getMessageMedia e w messageId =
     then_do (db_query e w Q_message_media) (\<lambda>_ w.
       (Inr (sort_key media_sort_order
               (filter (\<lambda>m. media_message_id m = messageId \<and> \<not> media_deleted m)
                  (message_media w))), w))"

definition downloadMediaFromUrl ::
  "env \<Rightarrow> world \<Rightarrow> string \<Rightarrow> string \<Rightarrow> string \<Rightarrow> (error + message_body) \<times> world" where
  "downloadMediaFromUrl e w fileUrl mimeType filename =
     (case http_get e w fileUrl of
        Inl err \<Rightarrow> (Inl err, w)
      | Inr base64Data \<Rightarrow> (Inr (Media_body mimeType base64Data filename), w))"

text \<open>\<open>String.prototype.replace\<close> with a string pattern: the first occurrence only.\<close>

fun replace_first :: "string \<Rightarrow> string \<Rightarrow> string \<Rightarrow> string" where
  "replace_first pat rep [] = (if pat = [] then rep else [])"
| "replace_first pat rep (c # cs) =
     (if is_prefix pat (c # cs) then rep @ drop (length pat) (c # cs)
      else c # replace_first pat rep cs)"

definition buildMediaUrl :: "env \<Rightarrow> string \<Rightarrow> string" where
  "buildMediaUrl e filePath =
     (if is_prefix ''http://'' filePath \<or> is_prefix ''https://'' filePath then filePath
      else
        let cleanPath = (if is_prefix ''/'' filePath then drop 1 filePath else filePath);
            cleanPath = (if is_prefix ''media/'' cleanPath
                         then replace_first ''media/campaigns/yanachaga/'' ''post/'' cleanPath
                         else cleanPath)
        in frontendMediaUrl e @ ''/'' @ cleanPath)"

definition logMessageSent :: "env \<Rightarrow> world \<Rightarrow> nat \<Rightarrow> int \<Rightarrow> whatsapp_id \<Rightarrow> world" where
  "logMessageSent e w conversationId messageId whatsappMessageId =
     (case db_query e w Q_log_sent of
        (Inl err, w') \<Rightarrow> w'
      | (Inr _, w') \<Rightarrow>
          w'\<lparr>bot_message_log := bot_message_log w' @
               [\<lparr>log_conversation_id = conversationId, log_message_id = messageId,
                 delivery_status = SENT, whatsapp_message_id = Some whatsappMessageId,
                 error_message = None\<rparr>]\<rparr>)"

definition logMessageFailed :: "env \<Rightarrow> world \<Rightarrow> nat \<Rightarrow> int \<Rightarrow> error \<Rightarrow> world" where
  "logMessageFailed e w conversationId messageId errorMessage =
     (case db_query e w Q_log_failed of
        (Inl err, w') \<Rightarrow> w'
      | (Inr _, w') \<Rightarrow>
          w'\<lparr>bot_message_log := bot_message_log w' @
               [\<lparr>log_conversation_id = conversationId, log_message_id = messageId,
                 delivery_status = FAILED_TO_SEND, whatsapp_message_id = None,
                 error_message = Some errorMessage\<rparr>]\<rparr>)"

text \<open>\<open>client.sendMessage\<close>: an accepted message joins the outbox.\<close>

definition client_sendMessage ::
  "env \<Rightarrow> world \<Rightarrow> string \<Rightarrow> message_body \<Rightarrow> send_options \<Rightarrow> (error + whatsapp_id) \<times> world" where
  "client_sendMessage e w userPhone payload opts =
     (let out = \<lparr>recipient = userPhone, body = payload, options = opts\<rparr>
      in case sendMessage_result e w out of
           Inl err \<Rightarrow> (Inl err, w)
         | Inr serialized \<Rightarrow> (Inr (Serialized serialized), w\<lparr>outbox := outbox w @ [out]\<rparr>))"

definition no_options :: send_options where
  "no_options = \<lparr>caption = None, sendAudioAsVoice = False, sendMediaAsDocument = False\<rparr>"

definition replaceVariables ::
  "env \<Rightarrow> jstring option \<Rightarrow> (string \<times> jstring) list \<Rightarrow> jstring option" where
  "replaceVariables e text variables =
     (case text of
        None \<Rightarrow> None
      | Some c \<Rightarrow> if c = [] then Some c else Some (substitute e c variables))"

text \<open>\<open>message.content ? replaceVariables(message.content, variables) : ''\<close>\<close>

definition caption_of ::
  "env \<Rightarrow> jstring option \<Rightarrow> (string \<times> jstring) list \<Rightarrow> jstring" where
  "caption_of e text variables =
     (case text of
        None \<Rightarrow> []
      | Some c \<Rightarrow> if c = [] then [] else substitute e c variables)"

text \<open>\<open>mediaFile.mime_type || fallback\<close>\<close>

definition mime_or :: "string option \<Rightarrow> string \<Rightarrow> string" where
  "mime_or m fallback = (case m of None \<Rightarrow> fallback | Some t \<Rightarrow> if t = [] then fallback else t)"

definition sendTextMessage ::
  "env \<Rightarrow> world \<Rightarrow> string \<Rightarrow> message_row \<Rightarrow> (string \<times> jstring) list
     \<Rightarrow> (error + whatsapp_id) \<times> world" where
  "sendTextMessage e w userPhone message variables =
     client_sendMessage e w userPhone
       (Text_body (replaceVariables e (content message) variables)) no_options"

definition sendImageMessage ::
  "env \<Rightarrow> world \<Rightarrow> string \<Rightarrow> message_row \<Rightarrow> (string \<times> jstring) list
     \<Rightarrow> (error + whatsapp_id) \<times> world" where
  "sendImageMessage e w userPhone message variables =
     then_do (getMessageMedia e w (msg_id message)) (\<lambda>mediaFiles w.
       case mediaFiles of
         [] \<Rightarrow> (Inl (''No se encontr'' @ [CHR 0xF3] @ '' imagen para este mensaje''), w)
       | mediaFile # _ \<Rightarrow>
           then_do (downloadMediaFromUrl e w (buildMediaUrl e (file_path mediaFile))
                      (mime_or (mime_type mediaFile) ''image/jpeg'') ''file'') (\<lambda>media w.
             client_sendMessage e w userPhone media
               (no_options\<lparr>caption := Some (caption_of e (content message) variables)\<rparr>)))"

definition sendAudioMessage ::
  "env \<Rightarrow> world \<Rightarrow> string \<Rightarrow> message_row \<Rightarrow> (error + whatsapp_id) \<times> world" where
  "sendAudioMessage e w userPhone message =
     then_do (getMessageMedia e w (msg_id message)) (\<lambda>mediaFiles w.
       case mediaFiles of
         [] \<Rightarrow> (Inl (''No se encontr'' @ [CHR 0xF3] @ '' audio para este mensaje''), w)
       | mediaFile # _ \<Rightarrow>
           then_do (downloadMediaFromUrl e w (buildMediaUrl e (file_path mediaFile))
                      (mime_or (mime_type mediaFile) ''audio/mpeg'') ''file'') (\<lambda>media w.
             client_sendMessage e w userPhone media
               (no_options\<lparr>sendAudioAsVoice := True\<rparr>)))"

definition sendDocumentMessage ::
  "env \<Rightarrow> world \<Rightarrow> string \<Rightarrow> message_row \<Rightarrow> (string \<times> jstring) list
     \<Rightarrow> (error + whatsapp_id) \<times> world" where
  "sendDocumentMessage e w userPhone message variables =
     then_do (getMessageMedia e w (msg_id message)) (\<lambda>mediaFiles w.
       case mediaFiles of
         [] \<Rightarrow> (Inl (''No se encontr'' @ [CHR 0xF3] @ '' documento para este mensaje''), w)
       | mediaFile # _ \<Rightarrow>
           then_do (downloadMediaFromUrl e w (buildMediaUrl e (file_path mediaFile))
                      (mime_or (mime_type mediaFile) ''application/pdf'') ''Brochure.pdf'')
             (\<lambda>media w.
               client_sendMessage e w userPhone media
                 (no_options\<lparr>sendMediaAsDocument := True,
                             caption := Some (caption_of e (content message) variables)\<rparr>)))"

text \<open>
  The loop of \<open>sendGalleryMessage\<close>: an image that cannot be fetched or sent is logged
  and skipped, whatever the error. The result is \<open>lastMessageId || `GALLERY_${Date.now()}`\<close>:
  the placeholder stands in when no image was sent and when the last id is the empty string.
\<close>

fun gallery_loop ::
  "env \<Rightarrow> string \<Rightarrow> media_row list \<Rightarrow> whatsapp_id option \<Rightarrow> world
     \<Rightarrow> whatsapp_id option \<times> world" where
  "gallery_loop e userPhone [] lastMessageId w = (lastMessageId, w)"
| "gallery_loop e userPhone (mediaFile # rest) lastMessageId w =
     (case then_do (downloadMediaFromUrl e w (buildMediaUrl e (file_path mediaFile))
                      (mime_or (mime_type mediaFile) ''image/jpeg'') ''file'')
             (\<lambda>media w. client_sendMessage e w userPhone media no_options) of
        (Inr sent_id, w') \<Rightarrow> gallery_loop e userPhone rest (Some sent_id) w'
      | (Inl err, w') \<Rightarrow> gallery_loop e userPhone rest lastMessageId w')"

definition sendGalleryMessage ::
  "env \<Rightarrow> world \<Rightarrow> string \<Rightarrow> message_row \<Rightarrow> (error + whatsapp_id) \<times> world" where
  "sendGalleryMessage e w userPhone message =
     then_do (getMessageMedia e w (msg_id message)) (\<lambda>mediaFiles w.
       if length mediaFiles = 0
       then (Inl (''No se encontraron im'' @ [CHR 0xE1] @ ''genes para la galer''
                  @ [CHR 0xED] @ ''a''), w)
       else case gallery_loop e userPhone mediaFiles None w of
              (lastMessageId, w') \<Rightarrow>
                (Inr (case lastMessageId of
                        Some (Serialized serialized) \<Rightarrow>
                          if serialized = [] then Gallery_placeholder (now e)
                          else Serialized serialized
                      | _ \<Rightarrow> Gallery_placeholder (now e)), w'))"

text \<open>The fatal errors: \<open>Connection closed\<close> or \<open>Session closed\<close> in the message.\<close>

definition is_critical :: "error \<Rightarrow> bool" where
  "is_critical errorMessage =
     (includes_js errorMessage ''Connection closed'' \<or> includes_js errorMessage ''Session closed'')"

definition supported :: "string \<Rightarrow> bool" where
  "supported code = (code \<in> set [''TEXT'', ''IMAGE'', ''AUDIO'', ''DOCUMENT'', ''GALLERY''])"

text \<open>
  The inner \<open>try\<close> block for an item of a supported type: the \<open>switch\<close>, the log
  entry, the counter of the conversation.
\<close>

definition send_item ::
  "env \<Rightarrow> world \<Rightarrow> string \<Rightarrow> nat \<Rightarrow> message_row \<Rightarrow> (string \<times> jstring) list
     \<Rightarrow> (error + unit) \<times> world" where
  "send_item e w userPhone conversationId msg variables =
     then_do
       (if type_code msg = ''TEXT'' then sendTextMessage e w userPhone msg variables
        else if type_code msg = ''IMAGE'' then sendImageMessage e w userPhone msg variables
        else if type_code msg = ''AUDIO'' then sendAudioMessage e w userPhone msg
        else if type_code msg = ''DOCUMENT'' then sendDocumentMessage e w userPhone msg variables
        else sendGalleryMessage e w userPhone msg)
       (\<lambda>whatsappMessageId w.
          incrementMessagesSent e
            (logMessageSent e w conversationId (msg_id msg) whatsappMessageId) conversationId)"

text \<open>
  The \<open>for\<close> loop of \<open>sendSequentialMessages\<close> with its two counters. An item of an
  unsupported type is skipped by \<open>continue\<close>; a failed item is logged and counted, and a
  critical error is thrown again, which ends the loop.
\<close>

fun send_loop ::
  "env \<Rightarrow> string \<Rightarrow> nat \<Rightarrow> (string \<times> jstring) list \<Rightarrow> message_row list \<Rightarrow> nat \<Rightarrow> nat
     \<Rightarrow> world \<Rightarrow> (error + nat \<times> nat) \<times> world" where
  "send_loop e userPhone conversationId variables [] successCount failCount w =
     (Inr (successCount, failCount), w)"
| "send_loop e userPhone conversationId variables (msg # rest) successCount failCount w =
     (if \<not> supported (type_code msg)
      then send_loop e userPhone conversationId variables rest successCount failCount w
      else case send_item e w userPhone conversationId msg variables of
             (Inr _, w') \<Rightarrow>
               send_loop e userPhone conversationId variables rest (successCount + 1) failCount w'
           | (Inl err, w') \<Rightarrow>
               let w'' = logMessageFailed e w' conversationId (msg_id msg) err in
               if is_critical err then (Inl err, w'')
               else send_loop e userPhone conversationId variables rest
                      successCount (failCount + 1) w'')"

record dispatch_result =
  success :: bool
  total :: nat
  sent :: nat
  failed :: nat

definition sendSequentialMessages ::
  "env \<Rightarrow> world \<Rightarrow> string \<Rightarrow> nat \<Rightarrow> message_row list \<Rightarrow> (string \<times> jstring) list
     \<Rightarrow> (error + dispatch_result) \<times> world" where
  "sendSequentialMessages e w userPhone conversationId plan variables =
     (case send_loop e userPhone conversationId variables plan 0 0 w of
        (Inl err, w') \<Rightarrow> (Inl err, w')
      | (Inr (successCount, failCount), w') \<Rightarrow>
          (Inr \<lparr>success = True, total = length plan, sent = successCount,
                failed = failCount\<rparr>, w'))"

subsection \<open>What a dispatch sends, item by item\<close>

text \<open>
  The transport of the model records every message that \<open>client.sendMessage\<close> accepts, in
  the order of the calls, in \<open>outbox\<close>. The following functions name the parts of a
  dispatch of \<open>plan\<close> that starts in the world \<open>w\<close>. \<open>world_before \<dots> i\<close> is the world
  in which the loop reaches the item at index \<open>i\<close>: the one that the loop leaves after the
  \<open>i\<close> items before it.
\<close>

definition world_before ::
  "env \<Rightarrow> string \<Rightarrow> nat \<Rightarrow> (string \<times> jstring) list \<Rightarrow> message_row list \<Rightarrow> world \<Rightarrow> nat
     \<Rightarrow> world" where
  "world_before e userPhone conversationId variables plan w i =
     snd (send_loop e userPhone conversationId variables (take i plan) 0 0 w)"

text \<open>
  \<open>item_sends \<dots> i\<close> are the messages that the body of the loop sends for the item at
  index \<open>i\<close>, in the order in which it sends them: what \<open>send_item\<close> adds to the outbox of
  that world, and nothing for an item of an unsupported type, which the loop skips.
\<close>

definition item_sends ::
  "env \<Rightarrow> string \<Rightarrow> nat \<Rightarrow> (string \<times> jstring) list \<Rightarrow> message_row list \<Rightarrow> world \<Rightarrow> nat
     \<Rightarrow> outgoing list" where
  "item_sends e userPhone conversationId variables plan w i =
     (let before = world_before e userPhone conversationId variables plan w i
      in if supported (type_code (plan ! i))
         then drop (length (outbox before))
                (outbox (snd (send_item e before userPhone conversationId (plan ! i) variables)))
         else [])"

text \<open>
  \<open>fails_critically \<dots> i err\<close>: the item at index \<open>i\<close> is attempted and fails with the
  error \<open>err\<close>, which \<open>is_critical\<close> classifies as critical.
\<close>

definition fails_critically ::
  "env \<Rightarrow> string \<Rightarrow> nat \<Rightarrow> (string \<times> jstring) list \<Rightarrow> message_row list \<Rightarrow> world \<Rightarrow> nat
     \<Rightarrow> error \<Rightarrow> bool" where
  "fails_critically e userPhone conversationId variables plan w i err =
     (supported (type_code (plan ! i))
      \<and> fst (send_item e (world_before e userPhone conversationId variables plan w i)
                userPhone conversationId (plan ! i) variables) = Inl err
      \<and> is_critical err)"

text \<open>
  \<open>attempts \<dots> r w' k\<close>: the dispatch has worked through the first \<open>k\<close> items of the plan,
  in the order of the plan, and through no other item, and has ended in the world \<open>w'\<close>
  with the outcome \<open>r\<close>. Its sends are those of the items \<open>0, \<dots>, k - 1\<close>, one item after
  the other; no item before the last of them fails critically; a dispatch that returns a
  result has worked through the whole plan, and one that throws has stopped at the item
  that failed critically.
\<close>

definition attempts ::
  "env \<Rightarrow> string \<Rightarrow> nat \<Rightarrow> (string \<times> jstring) list \<Rightarrow> message_row list \<Rightarrow> world
     \<Rightarrow> (error + 'a) \<Rightarrow> world \<Rightarrow> nat \<Rightarrow> bool" where
  "attempts e userPhone conversationId variables plan w r w' k =
     (k \<le> length plan
      \<and> outbox w' = outbox w
            @ concat (map (item_sends e userPhone conversationId variables plan w) [0..<k])
      \<and> (\<forall>i<k. \<forall>err. fails_critically e userPhone conversationId variables plan w i err
             \<longrightarrow> Suc i = k \<and> r = Inl err)
      \<and> (\<forall>result. r = Inr result \<longrightarrow> k = length plan)
      \<and> (\<forall>err. r = Inl err
             \<longrightarrow> 0 < k \<and> fails_critically e userPhone conversationId variables plan w (k - 1) err))"

section \<open>The orchestrator (services/whatsapp.service.js)\<close>

record incoming =
  fromMe :: bool
  sender :: string
  message_text :: jstring

datatype admission = Ignored | Admitted string jstring nat int

text \<open>
  \<open>handleIncomingMessage\<close> up to the creation of the conversation: the gates, the
  selection of the campaign, the update of the rate limit.
\<close>

definition admit ::
  "env \<Rightarrow> world \<Rightarrow> string option \<Rightarrow> incoming \<Rightarrow> (error + admission) \<times> world" where
  "admit e w botPhoneNumber message =
     (if fromMe message then (Inr Ignored, w)
      else if includes_js (sender message) ''@g.us'' then (Inr Ignored, w)
      else
        let userPhone = sender message; messageText = message_text message in
        if messageText = [] \<or> length (trim messageText) = 0 then (Inr Ignored, w)
        else
          case getContact_result e w of
            Inl err \<Rightarrow> (Inl err, w)
          | Inr (pushname, contact_name) \<Rightarrow>
              let userName =
                    (case pushname of
                       Some n \<Rightarrow> if n \<noteq> [] then n
                                 else (case contact_name of
                                         Some m \<Rightarrow> if m \<noteq> [] then m else js ''Usuario''
                                       | None \<Rightarrow> js ''Usuario'')
                     | None \<Rightarrow> (case contact_name of
                                  Some m \<Rightarrow> if m \<noteq> [] then m else js ''Usuario''
                                | None \<Rightarrow> js ''Usuario''))
              in
              then_do (getActiveConversation e w userPhone None) (\<lambda>activeConversation w.
                case activeConversation of
                  Some c \<Rightarrow> (Inr Ignored, w)
                | None \<Rightarrow>
                    (case checkRateLimit e w userPhone of
                       (rateLimitCheck, w) \<Rightarrow>
                         if \<not> allowed rateLimitCheck then (Inr Ignored, w)
                         else
                           then_do (detectCampaign e w messageText) (\<lambda>campaignMatch w.
                             case campaignMatch of
                               None \<Rightarrow> (Inr Ignored, w)
                             | Some cm \<Rightarrow>
                                 then_do (updateRateLimit e w userPhone) (\<lambda>_ w.
                                   then_do (createConversation e w userPhone userName
                                              (campaignId cm) messageText (matchedKeyword cm)
                                              (matchType cm) botPhoneNumber)
                                     (\<lambda>conversationId w.
                                        (Inr (Admitted userPhone userName conversationId
                                                (campaignId cm)), w)))))))"

text \<open>
  \<open>handleIncomingMessage\<close> from the fetch of the plan on: the dispatch and the
  decision on the final state of the conversation.
\<close>

definition deliver ::
  "env \<Rightarrow> world \<Rightarrow> string \<Rightarrow> jstring \<Rightarrow> nat \<Rightarrow> int \<Rightarrow> (error + unit) \<times> world" where
  "deliver e w userPhone userName conversationId cid =
     then_do (getCampaignMessages e w cid) (\<lambda>plan w.
       if length plan = 0
       then failConversation e w conversationId (Some ''Sin mensajes configurados'')
       else
         let variables = [(''nombre'', userName), (''telefono'', js userPhone)] in
         then_do (sendSequentialMessages e w userPhone conversationId plan variables)
           (\<lambda>result w.
              if sent result = length plan then completeConversation e w conversationId
              else if failed result = length plan
              then failConversation e w conversationId (Some ''Todos los mensajes fallaron'')
              else completeConversation e w conversationId))"

text \<open>\<open>handleIncomingMessage\<close>: the \<open>catch\<close> logs the error and does nothing else.\<close>

definition handleIncomingMessage :: "env \<Rightarrow> world \<Rightarrow> string option \<Rightarrow> incoming \<Rightarrow> world" where
  "handleIncomingMessage e w botPhoneNumber message =
     (case then_do (admit e w botPhoneNumber message) (\<lambda>admission w.
             case admission of
               Ignored \<Rightarrow> (Inr (), w)
             | Admitted userPhone userName conversationId cid \<Rightarrow>
                 deliver e w userPhone userName conversationId cid) of
        (Inr _, w') \<Rightarrow> w'
      | (Inl error, w') \<Rightarrow> w')"

section \<open>Sample surroundings\<close>

text \<open>
  A store without rows, and surroundings in which nothing fails: the database accepts
  every statement, the client accepts every message, the media host answers, the contact
  is known, and \<open>substitute\<close> leaves the text as it is. The clock reads 1000.
\<close>

definition empty_world :: world where
  "empty_world =
     \<lparr>blocked_numbers = [], user_rate_limit = [], bot_conversations = [],
      bot_message_log = [], campaigns = [], messages = [], message_media = [], outbox = []\<rparr>"

definition quiet_env :: env where
  "quiet_env =
     \<lparr>now = 1000, rateLimits_hour = 3, rateLimits_day = 8,
      frontendMediaUrl = ''https://media.example'',
      query_error = (\<lambda>w q. None),
      sendMessage_result = (\<lambda>w out. Inr ''true_51999000111@c.us_3EB0''),
      http_get = (\<lambda>w url. Inr ''AAAA''),
      getContact_result = (\<lambda>w. Inr (Some (js ''Ana''), None)),
      substitute = (\<lambda>text variables. text)\<rparr>"

definition blocked_row :: "int option \<Rightarrow> rate_limit_row" where
  "blocked_row until =
     \<lparr>user_phone = ''51999000111@c.us'', is_blocked = True, blocked_until = until,
      trigger_count_hour = 1, trigger_count_day = 1, trigger_count_total = 1,
      last_trigger_at = Some 100\<rparr>"

definition text_item :: "int \<Rightarrow> int \<Rightarrow> string \<Rightarrow> message_row" where
  "text_item i position words =
     \<lparr>msg_id = i, msg_campaign_id = 1, type_code = ''TEXT'', content = Some (js words),
      sort_order = position, delay_seconds = 0, msg_active = True, msg_deleted = False\<rparr>"

definition info_campaign :: campaign_row where
  "info_campaign =
     \<lparr>campaign_id = 1, campaign_name = ''Yanachaga'',
      trigger_keywords_col =
        Document (Some \<lparr>exact_matches = None, keywords_tk = Some [js ''info''],
                         synonyms = None, excluded_words = None\<rparr>),
      priority = 10, campaign_active = True, campaign_deleted = False\<rparr>"

definition info_message :: incoming where
  "info_message = \<lparr>fromMe = False, sender = ''51999000111@c.us'', message_text = js ''info''\<rparr>"

definition campaign_world :: world where
  "campaign_world =
     empty_world\<lparr>campaigns := [info_campaign],
                 messages := [text_item 10 1 ''Hola'', text_item 20 2 ''Adios'']\<rparr>"

text \<open>The same surroundings with the session of the client gone.\<close>

definition closed_session_env :: env where
  "closed_session_env = quiet_env\<lparr>sendMessage_result := (\<lambda>w out. Inl ''Session closed'')\<rparr>"

text \<open>The world after \<open>info_message\<close> has been admitted in \<open>campaign_world\<close>.\<close>

definition admitted_world :: world where
  "admitted_world =
     campaign_world
       \<lparr>user_rate_limit :=
          [\<lparr>user_phone = ''51999000111@c.us'', is_blocked = False, blocked_until = None,
            trigger_count_hour = 1, trigger_count_day = 1, trigger_count_total = 1,
            last_trigger_at = Some 1000\<rparr>],
        bot_conversations :=
          [\<lparr>conv_id = 1, conv_user_phone = ''51999000111@c.us'', conv_user_name = js ''Ana'',
            conv_campaign_id = 1, trigger_message = js ''info'', matched_keyword = js ''info'',
            conv_match_type = KEYWORD, corse = Some ''51900000000'', conv_status = INITIATED,
            messages_sent = 0, conversation_started_at = 1000, conversation_ended_at = None,
            failure_reason = None\<rparr>]\<rparr>"

text \<open>
  The world in which \<open>handleIncomingMessage\<close> leaves \<open>campaign_world\<close> when the session
  of the client is gone: one log entry, for the first item, and nothing else changed.
\<close>

definition stuck_world :: world where
  "stuck_world =
     admitted_world\<lparr>bot_message_log :=
        [\<lparr>log_conversation_id = 1, log_message_id = 10, delivery_status = FAILED_TO_SEND,
          whatsapp_message_id = None, error_message = Some ''Session closed''\<rparr>]\<rparr>"

text \<open>Surroundings in which the client rejects the text \<open>Hola\<close> and accepts the rest.\<close>

definition flaky_env :: env where
  "flaky_env =
     quiet_env\<lparr>sendMessage_result :=
       (\<lambda>w out. if body out = Text_body (Some (js ''Hola'')) then Inl ''Evaluation failed''
                 else Inr ''true_51999000111@c.us_3EB0'')\<rparr>"

text \<open>A table of messages that lists the later item first.\<close>

definition reversed_world :: world where
  "reversed_world =
     empty_world\<lparr>messages := [text_item 20 2 ''second'', text_item 10 1 ''first'']\<rparr>"

section \<open>Properties of the string operations\<close>

lemma is_prefix_iff: "is_prefix xs ys \<longleftrightarrow> (\<exists>zs. ys = xs @ zs)"
  by (induction xs ys rule: is_prefix.induct) auto

lemma includes_js_iff: "includes_js xs sub \<longleftrightarrow> (\<exists>pre post. xs = pre @ sub @ post)"
proof (induction xs)
  case Nil
  show ?case by auto
next
  case (Cons c cs)
  show ?case
  proof
    assume "includes_js (c # cs) sub"
    then consider "is_prefix sub (c # cs)" | "includes_js cs sub" by auto
    then show "\<exists>pre post. c # cs = pre @ sub @ post"
    proof cases
      case 1
      then obtain zs where "c # cs = sub @ zs" by (auto simp: is_prefix_iff)
      then have "c # cs = [] @ sub @ zs" by simp
      then show ?thesis by blast
    next
      case 2
      then obtain pre post where "cs = pre @ sub @ post" using Cons.IH by auto
      then have "c # cs = (c # pre) @ sub @ post" by simp
      then show ?thesis by blast
    qed
  next
    assume "\<exists>pre post. c # cs = pre @ sub @ post"
    then obtain pre post where eq: "c # cs = pre @ sub @ post" by blast
    show "includes_js (c # cs) sub"
    proof (cases pre)
      case Nil
      with eq have "is_prefix sub (c # cs)" by (auto simp: is_prefix_iff)
      then show ?thesis by simp
    next
      case (Cons p pre')
      with eq have "cs = pre' @ sub @ post" by simp
      then have "includes_js cs sub" using Cons.IH by blast
      then show ?thesis by simp
    qed
  qed
qed

lemma includes_js_empty: "includes_js xs []"
  by (cases xs) simp_all

lemma lower_cu_idem: "lower_cu (lower_cu c) = lower_cu c"
  by (simp add: lower_cu_def)

lemma set_insert_mark: "set (insert_mark c ds) = insert c (set ds)"
  by (induction ds) auto

lemma set_reorder: "set (reorder cs) = set cs"
  by (induction cs) (auto simp: set_insert_mark)

lemma concat_decomp_settled: "\<forall>c\<in>set cs. decomp c = [c] \<Longrightarrow> concat (map decomp cs) = cs"
  by (induction cs) auto

lemma decomp_keys: "fst ` set decomp_table =
  {0xC0,0xC1,0xC2,0xC3,0xC4,0xC5,0xC7,0xC8,0xC9,0xCA,0xCB,0xCC,0xCD,0xCE,0xCF,0xD1,0xD2,0xD3,0xD4,0xD5,0xD6,
   0xD9,0xDA,0xDB,0xDC,0xDD,0xE0,0xE1,0xE2,0xE3,0xE4,0xE5,0xE7,0xE8,0xE9,0xEA,0xEB,0xEC,0xED,0xEE,0xEF,0xF1,
   0xF2,0xF3,0xF4,0xF5,0xF6,0xF9,0xFA,0xFB,0xFC,0xFD,0xFF,0x340,0x341,0x343,0x344}"
  by (simp add: decomp_table_def)

lemma decomp_plain: "c \<notin> fst ` set decomp_table \<Longrightarrow> decomp c = [c]"
  by (simp add: decomp_def map_of_eq_None_iff[THEN iffD2])

lemma collapse_ws_head:
  "cs = [] \<or> \<not> is_space (hd cs) \<Longrightarrow> collapse_ws cs = [] \<or> \<not> is_space (hd (collapse_ws cs))"
  by (cases cs) auto

lemma dropWhile_head: "dropWhile P cs = [] \<or> \<not> P (hd (dropWhile P cs))"
  using hd_dropWhile by blast

lemma single_spaced_collapse_ws: "single_spaced (collapse_ws w)"
proof (induction w rule: collapse_ws.induct)
  case 1
  show ?case by simp
next
  case (2 c cs)
  show ?case
  proof (cases "is_space c")
    case True
    have "collapse_ws (dropWhile is_space cs) = []
       \<or> \<not> is_space (hd (collapse_ws (dropWhile is_space cs)))"
      by (rule collapse_ws_head) (rule dropWhile_head)
    with True 2 show ?thesis by simp
  next
    case False
    with 2 show ?thesis by simp
  qed
qed

lemma collapse_ws_fixed: "single_spaced v \<Longrightarrow> collapse_ws v = v"
proof (induction v rule: collapse_ws.induct)
  case 1
  show ?case by simp
next
  case (2 c cs)
  show ?case
  proof (cases "is_space c")
    case True
    with 2(3) have c: "c = 0x20" and h: "cs = [] \<or> \<not> is_space (hd cs)" and s: "single_spaced cs"
      by simp_all
    from h have d: "dropWhile is_space cs = cs" by (cases cs) auto
    with 2(1) True s have "collapse_ws (dropWhile is_space cs) = cs" by simp
    with True c show ?thesis by simp
  next
    case False
    with 2 show ?thesis by simp
  qed
qed

lemma single_spaced_suffix: "single_spaced (a @ b) \<Longrightarrow> single_spaced b"
  by (induction a) auto

lemma single_spaced_prefix: "single_spaced (a @ b) \<Longrightarrow> single_spaced a"
proof (induction a)
  case Nil
  show ?case by simp
next
  case (Cons c a)
  then show ?case by (cases a) auto
qed

lemma trim_split: "\<exists>pre post. v = pre @ trim v @ post"
proof -
  let ?u = "dropWhile is_space v"
  have "v = takeWhile is_space v @ ?u" by simp
  moreover have "rev ?u = takeWhile is_space (rev ?u) @ dropWhile is_space (rev ?u)" by simp
  then have "?u = trim v @ rev (takeWhile is_space (rev ?u))"
    unfolding trim_def by (metis rev_append rev_rev_ident)
  ultimately have "v = takeWhile is_space v @ trim v @ rev (takeWhile is_space (rev ?u))"
    by simp
  then show ?thesis by blast
qed

lemma single_spaced_trim: "single_spaced v \<Longrightarrow> single_spaced (trim v)"
  using trim_split single_spaced_prefix single_spaced_suffix by metis

lemma set_trim: "set (trim v) \<subseteq> set v"
  using trim_split [of v] by (metis Un_iff set_append subsetI)

lemma set_collapse_ws: "set (collapse_ws w) \<subseteq> insert 0x20 (set w)"
proof (induction w rule: collapse_ws.induct)
  case 1
  show ?case by simp
next
  case (2 c cs)
  have "set (dropWhile is_space cs) \<subseteq> set cs" by (rule set_dropWhileD [THEN subsetI])
  with 2 show ?case by (cases "is_space c") auto
qed

lemma trim_ends:
  "trim v = [] \<or> (\<not> is_space (hd (trim v)) \<and> \<not> is_space (last (trim v)))"
proof (cases "trim v = []")
  case True
  then show ?thesis by simp
next
  case False
  let ?u = "dropWhile is_space v"
  let ?r = "dropWhile is_space (rev ?u)"
  from False have r: "?r \<noteq> []" by (simp add: trim_def)
  then have "\<not> is_space (hd ?r)" using hd_dropWhile by blast
  then have l: "\<not> is_space (last (trim v))" using r by (simp add: trim_def last_rev)
  have u: "?u \<noteq> []"
  proof
    assume e: "?u = []"
    have "?r = []" unfolding e by simp
    with r show False by simp
  qed
  then have hu: "\<not> is_space (hd ?u)" using hd_dropWhile by blast
  obtain post where "?u = trim v @ post"
    using takeWhile_dropWhile_id [of is_space "rev ?u"] unfolding trim_def
    by (metis rev_append rev_rev_ident)
  with False have "hd (trim v) = hd ?u" by (metis hd_append2)
  with hu l show ?thesis by simp
qed

lemma trim_fixed:
  assumes "y = [] \<or> (\<not> is_space (hd y) \<and> \<not> is_space (last y))"
  shows "trim y = y"
proof (cases "y = []")
  case True
  then show ?thesis by (simp add: trim_def)
next
  case False
  with assms have h: "\<not> is_space (hd y)" and l: "\<not> is_space (last y)" by simp_all
  from False h have "dropWhile is_space y = y" by (cases y) auto
  moreover from False l have "dropWhile is_space (rev y) = rev y"
    by (cases "rev y") (auto simp: last_rev [symmetric] hd_rev)
  ultimately show ?thesis by (simp add: trim_def)
qed

lemma trim_idem: "trim (trim v) = trim v"
  by (rule trim_fixed) (rule trim_ends)

subsection \<open>Code points\<close>

lemma code_points_plain: "\<not> is_leading u \<Longrightarrow> code_points (u # s) = u # code_points s"
  by (cases s) simp_all

lemma code_points_unpaired:
  "s = [] \<or> \<not> is_trailing (hd s) \<Longrightarrow> code_points (u # s) = u # code_points s"
  by (cases s) auto

lemma code_points_units: "c \<in> set (code_points s) \<Longrightarrow> c \<in> set s \<or> 0x10000 \<le> c"
  by (induction s rule: code_points.induct) (auto split: if_splits)

lemma units_code_points:
  "u \<in> set s \<Longrightarrow> u \<in> set (code_points s) \<or> is_leading u \<or> is_trailing u"
  by (induction s rule: code_points.induct) (auto split: if_splits)

lemma code_points_append_plain:
  "\<forall>u\<in>set a. \<not> is_leading u \<Longrightarrow> code_points (a @ s) = a @ code_points s"
  by (induction a) (simp_all add: code_points_plain)

lemma code_points_append_unpaired:
  "\<forall>u\<in>set b. \<not> is_trailing u \<Longrightarrow> code_points (m @ b) = code_points m @ code_points b"
proof (induction m rule: code_points.induct)
  case 1
  show ?case by simp
next
  case (2 u)
  then show ?case by (cases b) simp_all
next
  case (3 u v s)
  then show ?case by simp
qed

lemma space_not_surrogate: "is_space u \<Longrightarrow> \<not> is_leading u \<and> \<not> is_trailing u"
  by (auto simp: is_space_def is_leading_def is_trailing_def)

lemma punct_not_surrogate: "is_punct u \<Longrightarrow> \<not> is_leading u \<and> \<not> is_trailing u"
  by (auto simp: is_punct_def is_leading_def is_trailing_def)

lemma mark_not_surrogate: "is_mark u \<Longrightarrow> \<not> is_leading u \<and> \<not> is_trailing u"
  by (auto simp: is_mark_def is_leading_def is_trailing_def)

lemma astral_plain:
  assumes "0x10000 \<le> (c::nat)"
  shows "\<not> is_space c" "\<not> is_punct c" "\<not> is_mark c"
  using assms by (auto simp: is_space_def is_punct_def is_mark_def)

lemma code_points_strip:
  "well_formed s \<Longrightarrow>
     code_points (filter (\<lambda>c. \<not> is_mark c) s) = filter (\<lambda>c. \<not> is_mark c) (code_points s)"
proof (induction s rule: well_formed.induct)
  case 1
  show ?case by simp
next
  case (2 u)
  show ?case by simp
next
  case (3 u v s)
  show ?case
  proof (cases "is_leading u")
    case True
    with 3 have v: "is_trailing v" and s: "well_formed s" by simp_all
    from True v have "\<not> is_mark u" "\<not> is_mark v" using mark_not_surrogate by blast+
    moreover have "\<not> is_mark (0x10000 + (u - 0xD800) * 0x400 + (v - 0xDC00))"
      by (rule astral_plain) simp
    ultimately show ?thesis using True v s 3(1) by simp
  next
    case False
    with 3 have "well_formed (v # s)" by simp
    with False 3(2) have
      "code_points (filter (\<lambda>c. \<not> is_mark c) (v # s))
         = filter (\<lambda>c. \<not> is_mark c) (code_points (v # s))"
      by simp
    with False show ?thesis by (simp add: code_points_plain del: code_points.simps)
  qed
qed

lemma well_formed_plain:
  "\<not> is_leading u \<Longrightarrow> \<not> is_trailing u \<Longrightarrow> well_formed (u # s) = well_formed s"
  by (cases s) simp_all

lemma well_formed_strip: "well_formed s \<Longrightarrow> well_formed (filter (\<lambda>c. \<not> is_mark c) s)"
proof (induction s rule: well_formed.induct)
  case 1
  show ?case by simp
next
  case (2 u)
  then show ?case by simp
next
  case (3 u v s)
  show ?case
  proof (cases "is_leading u")
    case True
    with 3 have v: "is_trailing v" and s: "well_formed s" by simp_all
    from True v have "\<not> is_mark u" "\<not> is_mark v" using mark_not_surrogate by blast+
    then show ?thesis using True v s 3(1) by simp
  next
    case False
    with 3 have u: "\<not> is_trailing u" and "well_formed (v # s)" by simp_all
    with False 3(2) have "well_formed (filter (\<lambda>c. \<not> is_mark c) (v # s))" by simp
    with False u show ?thesis by (simp add: well_formed_plain del: well_formed.simps)
  qed
qed

lemma code_points_punct:
  "code_points (map (\<lambda>c. if is_punct c then 0x20 else c) s)
     = map (\<lambda>c. if is_punct c then 0x20 else c) (code_points s)"
proof (induction s rule: code_points.induct)
  case 1
  show ?case by simp
next
  case (2 u)
  show ?case by simp
next
  case (3 u v s)
  let ?p = "\<lambda>c. if is_punct c then 0x20 else (c::nat)"
  have lead: "is_leading (?p u) = is_leading u"
    using punct_not_surrogate [of u] by (simp add: is_leading_def)
  have trail: "is_trailing (?p v) = is_trailing v"
    using punct_not_surrogate [of v] by (simp add: is_trailing_def)
  show ?case
  proof (cases "is_leading u \<and> is_trailing v")
    case True
    then have "\<not> is_punct u" "\<not> is_punct v" using punct_not_surrogate by blast+
    moreover have "\<not> is_punct (0x10000 + (u - 0xD800) * 0x400 + (v - 0xDC00))"
      by (rule astral_plain) simp
    ultimately show ?thesis using True 3(1) by simp
  next
    case False
    with 3(2) have ih: "code_points (map ?p (v # s)) = map ?p (code_points (v # s))" by simp
    from False have l: "code_points (u # v # s) = u # code_points (v # s)"
      by (simp only: code_points.simps if_False)
    from False have "\<not> (is_leading (?p u) \<and> is_trailing (?p v))"
      unfolding lead trail .
    then have "code_points (?p u # ?p v # map ?p s) = ?p u # code_points (?p v # map ?p s)"
      by (simp only: code_points.simps if_False)
    then have "code_points (map ?p (u # v # s)) = ?p u # code_points (map ?p (v # s))"
      by (simp only: list.map)
    then show ?thesis unfolding ih l by (simp only: list.map)
  qed
qed

lemma code_points_dropWhile:
  "code_points (dropWhile is_space s) = dropWhile is_space (code_points s)"
proof (induction s)
  case Nil
  show ?case by simp
next
  case (Cons u s)
  show ?case
  proof (cases "is_space u")
    case True
    then have "code_points (u # s) = u # code_points s"
      using space_not_surrogate code_points_plain by blast
    with True Cons show ?thesis by simp
  next
    case False
    have "\<not> is_space (hd (code_points (u # s)))"
    proof (cases s)
      case Nil
      with False show ?thesis by simp
    next
      case (Cons v t)
      show ?thesis unfolding Cons using False astral_plain(1) by simp
    qed
    moreover have "code_points (u # s) \<noteq> []" by (cases s) simp_all
    ultimately have "dropWhile is_space (code_points (u # s)) = code_points (u # s)"
      by (cases "code_points (u # s)") simp_all
    with False show ?thesis by simp
  qed
qed

lemma code_points_collapse_ws: "code_points (collapse_ws s) = collapse_ws (code_points s)"
proof (induction s rule: length_induct)
  case (1 s)
  show ?case
  proof (cases s)
    case Nil
    then show ?thesis by simp
  next
    case (Cons u t)
    show ?thesis
    proof (cases "is_space u")
      case True
      then have plain: "\<not> is_leading u" using space_not_surrogate by blast
      have "length (dropWhile is_space t) < length s"
        unfolding Cons using length_dropWhile_le [of is_space t] by simp
      with 1 have "code_points (collapse_ws (dropWhile is_space t))
          = collapse_ws (code_points (dropWhile is_space t))"
        by blast
      then have "code_points (collapse_ws (dropWhile is_space t))
          = collapse_ws (dropWhile is_space (code_points t))"
        by (simp add: code_points_dropWhile)
      moreover have "\<not> is_leading 0x20" by (simp add: is_leading_def)
      ultimately show ?thesis
        unfolding Cons using True plain by (simp add: code_points_plain)
    next
      case False
      show ?thesis
      proof (cases "is_leading u \<and> t \<noteq> [] \<and> is_trailing (hd t)")
        case True
        then obtain v r where t: "t = v # r" by (cases t) auto
        with True have u: "is_leading u" and v: "is_trailing v" by simp_all
        from v have vs: "\<not> is_space v" using space_not_surrogate by blast
        have "length r < length s" unfolding Cons t by simp
        with 1 have "code_points (collapse_ws r) = collapse_ws (code_points r)" by blast
        moreover have "\<not> is_space (0x10000 + (u - 0xD800) * 0x400 + (v - 0xDC00))"
          by (rule astral_plain) simp
        ultimately show ?thesis unfolding Cons t using False vs u v by simp
      next
        case unpaired: False
        have "length t < length s" unfolding Cons by simp
        with 1 have ih: "code_points (collapse_ws t) = collapse_ws (code_points t)" by blast
        from unpaired have cp: "code_points (u # t) = u # code_points t"
          using code_points_plain code_points_unpaired by blast
        have "collapse_ws t = [] \<or> \<not> is_trailing (hd (collapse_ws t)) \<or> \<not> is_leading u"
        proof (cases t)
          case Nil
          then show ?thesis by simp
        next
          case (Cons v r)
          show ?thesis
          proof (cases "is_space v")
            case True
            then show ?thesis unfolding Cons by (simp add: is_trailing_def)
          next
            case False
            with unpaired show ?thesis unfolding Cons by auto
          qed
        qed
        then have "code_points (u # collapse_ws t) = u # code_points (collapse_ws t)"
          using code_points_plain code_points_unpaired by blast
        with False cp ih show ?thesis unfolding Cons by simp
      qed
    qed
  qed
qed

lemma trim_split_spaces:
  "\<exists>pre post. v = pre @ trim v @ post
     \<and> (\<forall>u\<in>set pre. is_space u) \<and> (\<forall>u\<in>set post. is_space u)"
proof -
  let ?u = "dropWhile is_space v"
  let ?post = "rev (takeWhile is_space (rev ?u))"
  have "v = takeWhile is_space v @ ?u" by simp
  moreover have "rev ?u = takeWhile is_space (rev ?u) @ dropWhile is_space (rev ?u)" by simp
  then have "?u = trim v @ ?post"
    unfolding trim_def by (metis rev_append rev_rev_ident)
  ultimately have "v = takeWhile is_space v @ trim v @ ?post" by simp
  moreover have "\<forall>u\<in>set (takeWhile is_space v). is_space u"
    using set_takeWhileD by fastforce
  moreover have "\<forall>u\<in>set ?post. is_space u"
    using set_takeWhileD by fastforce
  ultimately show ?thesis by blast
qed

lemma code_points_trim:
  "\<exists>pre post. code_points v = pre @ code_points (trim v) @ post"
proof -
  obtain pre post where v: "v = pre @ trim v @ post"
    and pre: "\<forall>u\<in>set pre. is_space u" and post: "\<forall>u\<in>set post. is_space u"
    using trim_split_spaces by blast
  from pre have "code_points (pre @ trim v @ post) = pre @ code_points (trim v @ post)"
    using space_not_surrogate by (intro code_points_append_plain) blast
  moreover from post have
    "code_points (trim v @ post) = code_points (trim v) @ code_points post"
    using space_not_surrogate by (intro code_points_append_unpaired) blast
  ultimately have "code_points (pre @ trim v @ post)
      = pre @ code_points (trim v) @ code_points post"
    by simp
  with v show ?thesis by metis
qed

subsection \<open>Canonical order\<close>

lemma ordered_starter:
  "cls a = 0 \<Longrightarrow> canonically_ordered cls (a # s) = canonically_ordered cls s"
  by (cases s) simp_all

lemma ordered_tail: "canonically_ordered cls (a # s) \<Longrightarrow> canonically_ordered cls s"
  by (cases s) simp_all

lemma ordered_append:
  "canonically_ordered cls (xs @ ys)
     \<Longrightarrow> canonically_ordered cls xs \<and> canonically_ordered cls ys"
proof (induction cls xs rule: canonically_ordered.induct)
  case (1 cls)
  then show ?case by simp
next
  case (2 cls a)
  from 2 have "canonically_ordered cls ys" by (simp add: ordered_tail)
  then show ?case by simp
next
  case (3 cls a b s)
  then show ?case by simp
qed

lemma ordered_skip:
  "canonically_ordered cls (a # c # s) \<Longrightarrow> cls c \<noteq> 0 \<Longrightarrow> canonically_ordered cls (a # s)"
  by (cases s) auto

lemma ordered_filter_cons:
  "canonically_ordered cls (a # s) \<Longrightarrow> \<forall>c\<in>set s. \<not> P c \<longrightarrow> cls c \<noteq> 0
     \<Longrightarrow> canonically_ordered cls (a # filter P s)"
proof (induction s arbitrary: a)
  case Nil
  show ?case by simp
next
  case (Cons c s)
  show ?case
  proof (cases "P c")
    case True
    from Cons.prems have "canonically_ordered cls (c # filter P s)"
      by (intro Cons.IH) simp_all
    with Cons.prems True show ?thesis by simp
  next
    case False
    with Cons.prems have "canonically_ordered cls (a # s)" using ordered_skip by simp
    with Cons.prems have "canonically_ordered cls (a # filter P s)"
      by (intro Cons.IH) simp_all
    with False show ?thesis by simp
  qed
qed

lemma ordered_filter:
  assumes "canonically_ordered cls s" and "\<forall>c\<in>set s. \<not> P c \<longrightarrow> cls c \<noteq> 0"
  shows "canonically_ordered cls (filter P s)"
  using assms
proof (induction s)
  case Nil
  show ?case by simp
next
  case (Cons a s)
  show ?case
  proof (cases "P a")
    case True
    with Cons.prems show ?thesis using ordered_filter_cons [of cls a s P] by simp
  next
    case False
    from Cons.prems have "canonically_ordered cls s" using ordered_tail by blast
    with Cons False show ?thesis by simp
  qed
qed

lemma ordered_map_starter:
  "canonically_ordered cls s \<Longrightarrow> cls e = 0
     \<Longrightarrow> canonically_ordered cls (map (\<lambda>c. if Q c then e else c) s)"
  by (induction cls s rule: canonically_ordered.induct) auto

lemma ordered_collapse_ws:
  assumes "cls 0x20 = 0"
  shows "canonically_ordered cls s \<Longrightarrow> canonically_ordered cls (collapse_ws s)"
proof (induction s rule: collapse_ws.induct)
  case 1
  show ?case by simp
next
  case (2 c cs)
  show ?case
  proof (cases "is_space c")
    case True
    have "canonically_ordered cls (takeWhile is_space cs @ dropWhile is_space cs)"
      using 2(3) by (simp add: ordered_tail)
    then have "canonically_ordered cls (dropWhile is_space cs)"
      using ordered_append by blast
    with 2(1) True have "canonically_ordered cls (collapse_ws (dropWhile is_space cs))"
      by simp
    with True assms show ?thesis by (simp add: ordered_starter)
  next
    case False
    from 2(3) have "canonically_ordered cls cs" by (rule ordered_tail)
    with 2(2) False have ih: "canonically_ordered cls (collapse_ws cs)" by simp
    show ?thesis
    proof (cases cs)
      case Nil
      with False show ?thesis by simp
    next
      case (Cons d ds)
      show ?thesis
      proof (cases "is_space d")
        case True
        with False ih assms show ?thesis unfolding Cons by simp
      next
        case spaced: False
        with False ih 2(3) show ?thesis unfolding Cons by simp
      qed
    qed
  qed
qed

subsection \<open>The normalised text\<close>

lemma normalizeText_with_units:
  assumes "d \<in> set (normalizeText_with lower decompose x)"
  shows "\<not> is_mark d \<and> \<not> is_punct d"
proof (cases "x = []")
  case True
  with assms show ?thesis by (simp add: normalizeText_with_def)
next
  case False
  let ?w = "map (\<lambda>c. if is_punct c then 0x20 else c)
              (filter (\<lambda>c. \<not> is_mark c) (decompose (lower x)))"
  have space: "\<not> is_mark 0x20 \<and> \<not> is_punct 0x20" by (simp add: is_mark_def is_punct_def)
  have w: "\<not> is_mark c \<and> \<not> is_punct c" if "c \<in> set ?w" for c
    using that space by (auto split: if_splits)
  from assms False have "d \<in> set (trim (collapse_ws ?w))"
    by (simp add: normalizeText_with_def)
  then have "d \<in> insert 0x20 (set ?w)" using set_trim set_collapse_ws by blast
  then show ?thesis using w space by blast
qed

lemma normalizeText_with_shape:
  "single_spaced (normalizeText_with lower decompose x) \<and>
   (normalizeText_with lower decompose x = [] \<or>
      (\<not> is_space (hd (normalizeText_with lower decompose x))
       \<and> \<not> is_space (last (normalizeText_with lower decompose x))))"
proof (cases "x = []")
  case True
  then show ?thesis by (simp add: normalizeText_with_def)
next
  case False
  then show ?thesis
    using single_spaced_trim [OF single_spaced_collapse_ws] trim_ends
    by (simp add: normalizeText_with_def)
qed

lemma normalizeText_with_fixed:
  assumes lower: "lower y = y" and decompose: "decompose y = y"
    and clean: "\<forall>c\<in>set y. \<not> is_mark c \<and> \<not> is_punct c"
    and spaced: "single_spaced y"
    and ends: "y = [] \<or> (\<not> is_space (hd y) \<and> \<not> is_space (last y))"
  shows "normalizeText_with lower decompose y = y"
proof (cases "y = []")
  case True
  then show ?thesis by (simp add: normalizeText_with_def)
next
  case False
  from clean have "filter (\<lambda>c. \<not> is_mark c) y = y" by simp
  moreover from clean have "map (\<lambda>c. if is_punct c then 0x20 else c) y = y"
    by (intro map_idI) simp
  ultimately show ?thesis
    using False lower decompose
    by (simp add: normalizeText_with_def collapse_ws_fixed [OF spaced] trim_fixed [OF ends])
qed

lemma normalizeText_with_code_points:
  assumes wf: "well_formed (decompose (lower x))" and space: "cls 0x20 = 0"
    and ordered:
      "canonically_ordered cls
         (code_points (filter (\<lambda>c. \<not> is_mark c) (decompose (lower x))))"
  shows "set (code_points (normalizeText_with lower decompose x))
           \<subseteq> insert 0x20 (set (code_points (decompose (lower x))))
       \<and> canonically_ordered cls (code_points (normalizeText_with lower decompose x))"
proof (cases "x = []")
  case True
  then show ?thesis by (simp add: normalizeText_with_def)
next
  case False
  let ?w = "decompose (lower x)"
  let ?z = "filter (\<lambda>c. \<not> is_mark c) ?w"
  let ?p = "map (\<lambda>c. if is_punct c then 0x20 else c) ?z"
  let ?c = "collapse_ws ?p"
  have y: "normalizeText_with lower decompose x = trim ?c"
    using False by (simp add: normalizeText_with_def)
  have z: "code_points ?z = filter (\<lambda>c. \<not> is_mark c) (code_points ?w)"
    using wf by (rule code_points_strip)
  have p: "code_points ?p = map (\<lambda>c. if is_punct c then 0x20 else c) (code_points ?z)"
    by (rule code_points_punct)
  have c: "code_points ?c = collapse_ws (code_points ?p)"
    by (rule code_points_collapse_ws)
  obtain pre post where t: "code_points ?c = pre @ code_points (trim ?c) @ post"
    using code_points_trim by blast
  have "set (code_points (trim ?c)) \<subseteq> set (code_points ?c)"
    unfolding t by auto
  also have "\<dots> \<subseteq> insert 0x20 (set (code_points ?p))"
    unfolding c by (rule set_collapse_ws)
  also have "\<dots> \<subseteq> insert 0x20 (set (code_points ?w))"
    unfolding p z by auto
  finally have sub: "set (code_points (trim ?c)) \<subseteq> insert 0x20 (set (code_points ?w))" .
  from ordered have "canonically_ordered cls (code_points ?p)"
    unfolding p using space by (intro ordered_map_starter)
  then have "canonically_ordered cls (code_points ?c)"
    unfolding c using space by (intro ordered_collapse_ws)
  then have "canonically_ordered cls (code_points (trim ?c))"
    unfolding t using ordered_append by blast
  with sub y show ?thesis by simp
qed

subsection \<open>The tabulated built-ins have the properties of the Unicode ones\<close>

lemma lower_cu_high: "0x100 \<le> c \<Longrightarrow> lower_cu c = c"
  by (simp add: lower_cu_def)

lemma lower_cu_surrogate:
  "is_leading (lower_cu u) = is_leading u" "is_trailing (lower_cu u) = is_trailing u"
  by (auto simp: lower_cu_def is_leading_def is_trailing_def)

lemma surrogate_high: "is_leading u \<or> is_trailing u \<Longrightarrow> 0xD800 \<le> u"
  by (auto simp: is_leading_def is_trailing_def)

lemma ccc_high: "0x592 \<le> c \<Longrightarrow> ccc c = 0"
  by (simp add: ccc_def)

lemma decomp_high: "0x345 \<le> c \<Longrightarrow> decomp c = [c]"
  by (rule decomp_plain) (auto simp: decomp_keys)

lemma decomp_keys_range:
  "c \<in> fst ` set decomp_table \<Longrightarrow> (0xC0 \<le> c \<and> c \<le> 0xFF) \<or> (0x340 \<le> c \<and> c \<le> 0x344)"
  unfolding decomp_keys by auto

lemma decomp_table_values:
  "(c, ds) \<in> set decomp_table \<Longrightarrow> d \<in> set ds \<Longrightarrow> d < 0xC0 \<or> (0x300 \<le> d \<and> d \<le> 0x327)"
  unfolding decomp_table_def
  apply simp
  apply (elim disjE conjE)
  apply auto
  done

lemma decomp_table_lowercase:
  "(c, ds) \<in> set decomp_table \<Longrightarrow> d \<in> set ds \<Longrightarrow> lower_cu c = c \<Longrightarrow> lower_cu d = d"
  unfolding decomp_table_def
  apply simp
  apply (elim disjE conjE)
  apply (simp_all add: lower_cu_def)
  apply auto
  done

lemma decomp_value_plain:
  assumes "d < 0xC0 \<or> (0x300 \<le> d \<and> d \<le> 0x327)"
  shows "decomp d = [d]"
proof (rule decomp_plain)
  show "d \<notin> fst ` set decomp_table"
  proof
    assume "d \<in> fst ` set decomp_table"
    then have "(0xC0 \<le> d \<and> d \<le> 0xFF) \<or> (0x340 \<le> d \<and> d \<le> 0x344)"
      by (rule decomp_keys_range)
    with assms show False by arith
  qed
qed

lemma decomp_outputs:
  assumes "d \<in> set (decomp c)"
  shows "(d = c \<and> decomp c = [c]) \<or> (decomp d = [d] \<and> d < 0x345)"
proof (cases "map_of decomp_table c")
  case None
  with assms show ?thesis by (simp add: decomp_def)
next
  case (Some ds)
  then have "(c, ds) \<in> set decomp_table" by (rule map_of_SomeD)
  moreover from Some assms have "d \<in> set ds" by (simp add: decomp_def)
  ultimately have v: "d < 0xC0 \<or> (0x300 \<le> d \<and> d \<le> 0x327)" by (rule decomp_table_values)
  then have "decomp d = [d]" by (rule decomp_value_plain)
  moreover from v have "d < 0x345" by arith
  ultimately show ?thesis by blast
qed

lemma decomp_decomposed: "d \<in> set (decomp c) \<Longrightarrow> decomp d = [d]"
  using decomp_outputs by fastforce

lemma decomp_lowercase:
  assumes "lower_cu c = c" and "d \<in> set (decomp c)"
  shows "lower_cu d = d"
proof (cases "map_of decomp_table c")
  case None
  with assms show ?thesis by (simp add: decomp_def)
next
  case (Some ds)
  then have "(c, ds) \<in> set decomp_table" by (rule map_of_SomeD)
  moreover from Some assms have "d \<in> set ds" by (simp add: decomp_def)
  ultimately show ?thesis using assms(1) by (rule decomp_table_lowercase)
qed

lemma decomp_units:
  assumes "d \<in> set (decomp u)"
  shows "d = u \<or> (\<not> is_leading d \<and> \<not> is_trailing d \<and> d \<noteq> 0x34F)"
proof -
  from assms consider "d = u" | "d < 0x345" using decomp_outputs by blast
  then show ?thesis
  proof cases
    case 1
    then show ?thesis by simp
  next
    case 2
    then show ?thesis by (simp add: is_leading_def is_trailing_def)
  qed
qed

lemma set_nfd: "set (nfd s) = (\<Union>u\<in>set s. set (decomp u))"
  by (simp add: nfd_def set_reorder)

lemma units_fixed:
  assumes "\<forall>c\<in>set (code_points y). P c" and "\<And>u. 0xD800 \<le> u \<Longrightarrow> P u"
  shows "\<forall>u\<in>set y. P u"
proof
  fix u
  assume "u \<in> set y"
  then consider "u \<in> set (code_points y)" | "is_leading u \<or> is_trailing u"
    using units_code_points by blast
  then show "P u"
  proof cases
    case 1
    with assms(1) show ?thesis by blast
  next
    case 2
    then have "0xD800 \<le> u" by (rule surrogate_high)
    then show ?thesis by (rule assms(2))
  qed
qed

lemma code_points_fixed:
  assumes "\<forall>u\<in>set y. P u" and "\<And>c. 0x10000 \<le> c \<Longrightarrow> P c"
  shows "\<forall>c\<in>set (code_points y). P c"
  using assms code_points_units by blast

text \<open>Lower-casing.\<close>

lemma toLowerCase_fixed:
  assumes "\<forall>c\<in>set (code_points y). lower_cu c = c"
  shows "toLowerCase y = y"
proof -
  from assms have "\<forall>u\<in>set y. lower_cu u = u"
    by (rule units_fixed) (simp add: lower_cu_high)
  then show ?thesis unfolding toLowerCase_def by (intro map_idI) blast
qed

lemma toLowerCase_lowercase: "\<forall>c\<in>set (code_points (toLowerCase x)). lower_cu c = c"
proof (rule code_points_fixed)
  show "\<forall>u\<in>set (toLowerCase x). lower_cu u = u"
    by (auto simp: toLowerCase_def lower_cu_idem)
  show "lower_cu c = c" if "0x10000 \<le> c" for c using that by (simp add: lower_cu_high)
qed

lemma well_formed_map:
  assumes "\<And>u. is_leading (g u) = is_leading u" and "\<And>u. is_trailing (g u) = is_trailing u"
  shows "well_formed (map g s) = well_formed s"
  by (induction s rule: well_formed.induct) (simp_all add: assms)

lemma toLowerCase_well_formed: "well_formed x \<Longrightarrow> well_formed (toLowerCase x)"
  unfolding toLowerCase_def by (simp add: well_formed_map lower_cu_surrogate)

lemma toLowerCase_joiner: "0x34F \<notin> set x \<Longrightarrow> 0x34F \<notin> set (toLowerCase x)"
proof
  assume absent: "0x34F \<notin> set x" and "0x34F \<in> set (toLowerCase x)"
  then obtain u where u: "u \<in> set x" and "lower_cu u = 0x34F"
    by (auto simp: toLowerCase_def)
  then have "u = 0x34F" by (simp add: lower_cu_def split: if_splits)
  with u absent show False by simp
qed

text \<open>Canonical decomposition and ordering.\<close>

lemma ordered_cons:
  "canonically_ordered cls (a # s) \<longleftrightarrow>
     (s = [] \<or> cls (hd s) = 0 \<or> cls a \<le> cls (hd s)) \<and> canonically_ordered cls s"
  by (cases s) auto

lemma insert_mark_head:
  "hd (insert_mark c ds) = c \<or> (ds \<noteq> [] \<and> ccc (hd ds) < ccc c \<and> hd (insert_mark c ds) = hd ds)"
  by (cases ds) auto

lemma insert_mark_nonempty: "insert_mark c ds \<noteq> []"
  by (cases ds) auto

lemma ordered_insert_mark:
  "canonically_ordered ccc ds \<Longrightarrow> canonically_ordered ccc (insert_mark c ds)"
proof (induction ds)
  case Nil
  show ?case by simp
next
  case (Cons d ds)
  show ?case
  proof (cases "ccc d \<noteq> 0 \<and> ccc d < ccc c")
    case True
    from Cons have ih: "canonically_ordered ccc (insert_mark c ds)"
      using ordered_tail by blast
    from Cons.prems have d: "ds = [] \<or> ccc (hd ds) = 0 \<or> ccc d \<le> ccc (hd ds)"
      by (simp add: ordered_cons)
    have "ccc (hd (insert_mark c ds)) = 0 \<or> ccc d \<le> ccc (hd (insert_mark c ds))"
      using insert_mark_head [of c ds] True d by auto
    with ih True show ?thesis by (simp add: ordered_cons [of ccc d])
  next
    case False
    with Cons.prems show ?thesis by auto
  qed
qed

lemma ordered_reorder: "canonically_ordered ccc (reorder s)"
  by (induction s) (simp_all add: ordered_starter ordered_insert_mark)

lemma reorder_ordered: "canonically_ordered ccc s \<Longrightarrow> reorder s = s"
proof (induction s)
  case Nil
  show ?case by simp
next
  case (Cons c cs)
  then have cs: "reorder cs = cs" using ordered_tail by blast
  show ?case
  proof (cases cs)
    case Nil
    then show ?thesis by simp
  next
    case (Cons d ds)
    with Cons.prems cs show ?thesis by auto
  qed
qed

lemma code_points_head:
  "code_points (v # s) = h # t \<Longrightarrow> h = v \<or> 0x10000 \<le> h"
  by (cases s) (auto split: if_splits)

lemma code_points_nonempty: "code_points (v # s) \<noteq> []"
  by (cases s) simp_all

lemma code_points_ordered:
  assumes astral: "\<And>c. 0x10000 \<le> c \<Longrightarrow> cls c = 0"
  shows "canonically_ordered cls s \<Longrightarrow> canonically_ordered cls (code_points s)"
proof (induction s rule: code_points.induct)
  case 1
  show ?case by simp
next
  case (2 u)
  show ?case by simp
next
  case (3 u v s)
  show ?case
  proof (cases "is_leading u \<and> is_trailing v")
    case True
    from 3(3) have "canonically_ordered cls s" using ordered_tail by blast
    with True 3(1) have "canonically_ordered cls (code_points s)" by simp
    moreover have "cls (0x10000 + (u - 0xD800) * 0x400 + (v - 0xDC00)) = 0"
      by (rule astral) simp
    ultimately show ?thesis using True by (simp add: ordered_starter)
  next
    case False
    from 3(3) have "canonically_ordered cls (v # s)" by (rule ordered_tail)
    with False 3(2) have ih: "canonically_ordered cls (code_points (v # s))" by simp
    obtain h t where ht: "code_points (v # s) = h # t"
      using code_points_nonempty [of v s] by (cases "code_points (v # s)") auto
    then consider "h = v" | "0x10000 \<le> h" using code_points_head by blast
    then have "cls h = 0 \<or> cls u \<le> cls h"
    proof cases
      case 1
      with 3(3) show ?thesis by simp
    next
      case 2
      then show ?thesis by (simp add: astral)
    qed
    with ih have "canonically_ordered cls (u # code_points (v # s))"
      unfolding ht by simp
    moreover from False have "code_points (u # v # s) = u # code_points (v # s)"
      by (simp only: code_points.simps if_False)
    ultimately show ?thesis by simp
  qed
qed

lemma units_ordered:
  assumes surrogate: "\<And>u. is_leading u \<or> is_trailing u \<Longrightarrow> cls u = 0"
  shows "canonically_ordered cls (code_points s) \<Longrightarrow> canonically_ordered cls s"
proof (induction s rule: code_points.induct)
  case 1
  show ?case by simp
next
  case (2 u)
  show ?case by simp
next
  case (3 u v s)
  show ?case
  proof (cases "is_leading u \<and> is_trailing v")
    case True
    with 3(3) have "canonically_ordered cls (code_points s)" using ordered_tail by simp
    with True 3(1) have "canonically_ordered cls s" by simp
    moreover from True have "cls v = 0" using surrogate by blast
    ultimately show ?thesis by (simp add: ordered_starter)
  next
    case False
    then have cp: "code_points (u # v # s) = u # code_points (v # s)"
      by (simp only: code_points.simps if_False)
    with 3(3) have "canonically_ordered cls (code_points (v # s))"
      using ordered_tail by simp
    with False 3(2) have ih: "canonically_ordered cls (v # s)" by simp
    have "cls v = 0 \<or> cls u \<le> cls v"
    proof (cases "is_leading v")
      case True
      then show ?thesis using surrogate by blast
    next
      case plain: False
      then have "code_points (v # s) = v # code_points s" by (rule code_points_plain)
      with 3(3) cp show ?thesis by simp
    qed
    with ih show ?thesis by simp
  qed
qed

lemma nfd_fixed:
  assumes "\<forall>c\<in>set (code_points y). decomp c = [c]"
    and "canonically_ordered ccc (code_points y)"
  shows "nfd y = y"
proof -
  from assms(1) have "\<forall>u\<in>set y. decomp u = [u]"
    by (rule units_fixed) (simp add: decomp_high)
  then have "concat (map decomp y) = y" by (rule concat_decomp_settled)
  moreover have "canonically_ordered ccc y"
  proof (rule units_ordered)
    show "ccc u = 0" if "is_leading u \<or> is_trailing u" for u
      using surrogate_high [OF that] by (simp add: ccc_high)
    show "canonically_ordered ccc (code_points y)" by (rule assms(2))
  qed
  ultimately show ?thesis by (simp add: nfd_def reorder_ordered)
qed

lemma nfd_decomposed: "\<forall>c\<in>set (code_points (nfd x)). decomp c = [c]"
proof (rule code_points_fixed)
  show "\<forall>u\<in>set (nfd x). decomp u = [u]"
    using decomp_decomposed by (auto simp: set_nfd)
  show "decomp c = [c]" if "0x10000 \<le> c" for c using that by (simp add: decomp_high)
qed

lemma nfd_ordered: "canonically_ordered ccc (code_points (nfd x))"
proof (rule code_points_ordered)
  show "ccc c = 0" if "0x10000 \<le> c" for c using that by (simp add: ccc_high)
  show "canonically_ordered ccc (nfd x)" unfolding nfd_def by (rule ordered_reorder)
qed

lemma nfd_lowercase:
  assumes "\<forall>c\<in>set (code_points x). lower_cu c = c"
  shows "\<forall>c\<in>set (code_points (nfd x)). lower_cu c = c"
proof (rule code_points_fixed)
  from assms have "\<forall>u\<in>set x. lower_cu u = u"
    by (rule units_fixed) (simp add: lower_cu_high)
  then show "\<forall>u\<in>set (nfd x). lower_cu u = u"
    using decomp_lowercase by (auto simp: set_nfd)
  show "lower_cu c = c" if "0x10000 \<le> c" for c using that by (simp add: lower_cu_high)
qed

lemma well_formed_plain_append:
  "\<forall>u\<in>set a. \<not> is_leading u \<and> \<not> is_trailing u \<Longrightarrow> well_formed (a @ s) = well_formed s"
  by (induction a) (simp_all add: well_formed_plain del: well_formed.simps)

lemma decomp_surrogate: "is_leading u \<or> is_trailing u \<Longrightarrow> decomp u = [u]"
  using surrogate_high [of u] by (simp add: decomp_high)

lemma decomp_plain_units:
  assumes "\<not> is_leading u" and "\<not> is_trailing u"
  shows "\<forall>d\<in>set (decomp u). \<not> is_leading d \<and> \<not> is_trailing d"
  using assms decomp_units by blast

lemma well_formed_decomp: "well_formed s \<Longrightarrow> well_formed (concat (map decomp s))"
proof (induction s rule: well_formed.induct)
  case 1
  show ?case by simp
next
  case (2 u)
  then have "well_formed (decomp u @ []) = well_formed []"
    by (intro well_formed_plain_append decomp_plain_units) simp_all
  then show ?case by simp
next
  case (3 u v s)
  show ?case
  proof (cases "is_leading u")
    case True
    with 3 have v: "is_trailing v" and s: "well_formed (concat (map decomp s))" by simp_all
    from True v show ?thesis using s by (simp add: decomp_surrogate)
  next
    case False
    with 3 have u: "\<not> is_trailing u" and vs: "well_formed (concat (map decomp (v # s)))"
      by simp_all
    from False u have
      "well_formed (decomp u @ concat (map decomp (v # s)))
         = well_formed (concat (map decomp (v # s)))"
      by (intro well_formed_plain_append decomp_plain_units)
    with vs show ?thesis by simp
  qed
qed

lemma well_formed_insert_mark:
  assumes "\<not> is_leading c" and "\<not> is_trailing c"
  shows "well_formed ds \<Longrightarrow> well_formed (insert_mark c ds)"
proof (induction ds)
  case Nil
  from assms show ?case by simp
next
  case (Cons d ds)
  show ?case
  proof (cases "ccc d \<noteq> 0 \<and> ccc d < ccc c")
    case True
    have d: "\<not> is_leading d \<and> \<not> is_trailing d"
    proof (rule ccontr)
      assume "\<not> (\<not> is_leading d \<and> \<not> is_trailing d)"
      then have "0xD800 \<le> d" using surrogate_high by blast
      then have "ccc d = 0" by (simp add: ccc_high)
      with True show False by simp
    qed
    with Cons.prems have "well_formed ds" by (simp add: well_formed_plain del: well_formed.simps)
    then have "well_formed (insert_mark c ds)" by (rule Cons.IH)
    moreover from True have "insert_mark c (d # ds) = d # insert_mark c ds" by simp
    ultimately show ?thesis using d by (simp add: well_formed_plain del: well_formed.simps)
  next
    case False
    then have "insert_mark c (d # ds) = c # d # ds" by auto
    with assms Cons.prems show ?thesis by (simp add: well_formed_plain del: well_formed.simps)
  qed
qed

lemma well_formed_reorder: "well_formed s \<Longrightarrow> well_formed (reorder s)"
proof (induction s rule: well_formed.induct)
  case 1
  show ?case by simp
next
  case (2 u)
  then show ?case by simp
next
  case (3 u v s)
  show ?case
  proof (cases "is_leading u")
    case True
    with 3 have v: "is_trailing v" and s: "well_formed (reorder s)" by simp_all
    from True have "ccc u = 0" using surrogate_high [of u] by (simp add: ccc_high)
    moreover from v have "ccc v = 0" using surrogate_high [of v] by (simp add: ccc_high)
    ultimately show ?thesis using True v s by simp
  next
    case False
    with 3 have u: "\<not> is_trailing u" and vs: "well_formed (reorder (v # s))" by simp_all
    show ?thesis
    proof (cases "ccc u = 0")
      case True
      then have "reorder (u # v # s) = u # reorder (v # s)" by simp
      with False u vs show ?thesis by (simp add: well_formed_plain del: well_formed.simps reorder.simps)
    next
      case starter: False
      then have "reorder (u # v # s) = insert_mark u (reorder (v # s))" by simp
      with False u vs show ?thesis
        by (simp add: well_formed_insert_mark del: well_formed.simps reorder.simps)
    qed
  qed
qed

lemma nfd_well_formed: "well_formed x \<Longrightarrow> well_formed (nfd x)"
  unfolding nfd_def by (intro well_formed_reorder well_formed_decomp)

lemma nfd_joiner: "0x34F \<notin> set x \<Longrightarrow> 0x34F \<notin> set (nfd x)"
  using decomp_units by (fastforce simp: set_nfd)

lemma space_plain: "lower_cu 0x20 = 0x20 \<and> decomp 0x20 = [0x20] \<and> ccc 0x20 = 0"
  by (simp add: lower_cu_def decomp_value_plain ccc_def)

lemma marks_reordered: "is_mark u \<Longrightarrow> u \<noteq> 0x34F \<Longrightarrow> ccc u \<noteq> 0"
  by (simp add: is_mark_def ccc_def)

lemma normalizeText_instance: "normalizeText = normalizeText_with toLowerCase nfd"
  by (rule ext) (simp add: normalizeText_def normalizeText_with_def)

subsection \<open>Evaluating the normaliser on Basic Latin\<close>

lemma decomp_low: "c < 0xC0 \<Longrightarrow> decomp c = [c]"
  by (rule decomp_plain) (auto simp: decomp_keys)

lemma ccc_low: "c < 0x300 \<Longrightarrow> ccc c = 0"
  by (simp add: ccc_def)

lemmas ascii_defs = normalizeText_def js_def toLowerCase_def lower_cu_def nfd_def decomp_low
  ccc_low is_mark_def is_punct_def is_space_def trim_def

lemma example_message_normalized:
  "normalizeText (js ''Hola! info del Yanachaga Ecovillage, gracias'') =
     js ''hola info del yanachaga ecovillage gracias''"
  by (simp add: ascii_defs)

lemma example_keyword_normalized:
  "normalizeText (js ''yanachaga ecovillage'') = js ''yanachaga ecovillage''"
  by (simp add: ascii_defs)

lemma punctuation_normalized: "normalizeText (js ''?!'') = []"
  by (simp add: ascii_defs)

lemma hola_normalized: "normalizeText (js ''hola'') = js ''hola''"
  by (simp add: ascii_defs)

section \<open>Normalising twice\<close>

text \<open>
  Claim C7, as stated: \<open>normalizeText (normalizeText x) = normalizeText x\<close> for every
  string \<open>x\<close>. It fails for the string U+0061 U+0483 U+034F U+0591. The marks U+0483
  (class 230) and U+0591 (class 220) are kept apart by U+034F, a starter, so the first
  normalisation does not reorder them; the first replacement then deletes U+034F, which
  lies in U+0300 to U+036F, and the second normalisation swaps the two marks.
\<close>

theorem normalizeText_not_idempotent:
  "normalizeText (normalizeText [0x61, 0x483, 0x34F, 0x591])
     \<noteq> normalizeText [0x61, 0x483, 0x34F, 0x591]"
  by (simp add: normalizeText_def toLowerCase_def lower_cu_def nfd_def decomp_def
        decomp_table_def ccc_def is_mark_def is_punct_def is_space_def trim_def)

text \<open>
  The deletion works on code units, so it can also make one code point out of two. In
  U+D801 U+0301 U+DC00 the mark keeps two unpaired surrogates apart; the first
  normalisation sees these three code points and returns the surrogate pair of U+10400.
  That is an upper-case letter of the Deseret alphabet, which
  \<open>String.prototype.toLowerCase\<close> maps to U+10428 in a second normalisation; the
  tabulated \<open>toLowerCase\<close> has no entry for it.
\<close>

lemma unpaired_surrogates_joined:
  "code_points [0xD801, 0x301, 0xDC00] = [0xD801, 0x301, 0xDC00]
   \<and> normalizeText [0xD801, 0x301, 0xDC00] = [0xD801, 0xDC00]
   \<and> code_points (normalizeText [0xD801, 0x301, 0xDC00]) = [0x10400]"
  by (simp add: normalizeText_def toLowerCase_def lower_cu_def nfd_def decomp_def
        decomp_table_def ccc_def is_mark_def is_punct_def is_space_def trim_def
        is_leading_def is_trailing_def)

text \<open>
  Claim C7, amended. Let \<open>lower\<close> and \<open>decompose\<close> be the two built-in methods, \<open>cls\<close>
  the canonical combining class, \<open>lowercase c\<close> the code points that lower-casing maps
  to themselves and \<open>decomposed c\<close> the code points without canonical decomposition, and
  let them have the properties that the Unicode character database gives them:
  \<^item> \<open>lower\<close> leaves a text of lowercase code points as it is, returns a text of
    lowercase code points, keeps a well-formed string well formed and does not
    introduce U+034F;
  \<^item> \<open>decompose\<close> leaves a text of decomposed code points in canonical order as it
    is, returns a text of decomposed code points in canonical order, keeps a lowercase
    text lowercase and a well-formed string well formed, and does not introduce
    U+034F;
  \<^item> the space is lowercase, decomposed and of class 0, and every code point from
    U+0300 to U+036F other than U+034F has a class other than 0.

  Then \<open>normalize (normalize x) = normalize x\<close>
  \<^item> for every string \<open>x\<close> whose normalised text consists of lowercase, decomposed code
    points in canonical order;
  \<^item> for every well-formed string \<open>x\<close> for which the text that the deletion of U+0300
    to U+036F leaves is in canonical order;
  \<^item> in particular for every well-formed string \<open>x\<close> that does not contain U+034F.
\<close>

theorem normalizeText_idempotent:
  fixes lower decompose :: "jstring \<Rightarrow> jstring" and cls :: "nat \<Rightarrow> nat"
    and lowercase decomposed :: "nat \<Rightarrow> bool"
  assumes lower_fixed: "\<And>y. \<forall>c\<in>set (code_points y). lowercase c \<Longrightarrow> lower y = y"
    and lower_lowercase: "\<And>x. \<forall>c\<in>set (code_points (lower x)). lowercase c"
    and lower_well_formed: "\<And>x. well_formed x \<Longrightarrow> well_formed (lower x)"
    and lower_joiner: "\<And>x. 0x34F \<notin> set x \<Longrightarrow> 0x34F \<notin> set (lower x)"
    and decompose_fixed:
      "\<And>y. \<forall>c\<in>set (code_points y). decomposed c
          \<Longrightarrow> canonically_ordered cls (code_points y) \<Longrightarrow> decompose y = y"
    and decompose_decomposed: "\<And>x. \<forall>c\<in>set (code_points (decompose x)). decomposed c"
    and decompose_ordered: "\<And>x. canonically_ordered cls (code_points (decompose x))"
    and decompose_lowercase:
      "\<And>x. \<forall>c\<in>set (code_points x). lowercase c
          \<Longrightarrow> \<forall>c\<in>set (code_points (decompose x)). lowercase c"
    and decompose_well_formed: "\<And>x. well_formed x \<Longrightarrow> well_formed (decompose x)"
    and decompose_joiner: "\<And>x. 0x34F \<notin> set x \<Longrightarrow> 0x34F \<notin> set (decompose x)"
    and space: "lowercase 0x20 \<and> decomposed 0x20 \<and> cls 0x20 = 0"
    and marks: "\<And>u. is_mark u \<Longrightarrow> u \<noteq> 0x34F \<Longrightarrow> cls u \<noteq> 0"
  shows "((\<forall>c\<in>set (code_points (normalizeText_with lower decompose x)).
             lowercase c \<and> decomposed c)
          \<and> canonically_ordered cls (code_points (normalizeText_with lower decompose x))
          \<longrightarrow> normalizeText_with lower decompose (normalizeText_with lower decompose x)
                = normalizeText_with lower decompose x)
       \<and> (well_formed x
          \<and> canonically_ordered cls
               (code_points (filter (\<lambda>c. \<not> is_mark c) (decompose (lower x))))
          \<longrightarrow> normalizeText_with lower decompose (normalizeText_with lower decompose x)
                = normalizeText_with lower decompose x)
       \<and> (well_formed x \<and> 0x34F \<notin> set x
          \<longrightarrow> normalizeText_with lower decompose (normalizeText_with lower decompose x)
                = normalizeText_with lower decompose x)"
proof -
  let ?y = "normalizeText_with lower decompose x"
  let ?w = "decompose (lower x)"
  let ?z = "filter (\<lambda>c. \<not> is_mark c) ?w"
  have settled: "normalizeText_with lower decompose ?y = ?y"
    if "\<forall>c\<in>set (code_points ?y). lowercase c \<and> decomposed c"
      and "canonically_ordered cls (code_points ?y)"
  proof (rule normalizeText_with_fixed)
    from that show "lower ?y = ?y" by (intro lower_fixed) blast
    from that show "decompose ?y = ?y" by (intro decompose_fixed) blast+
    show "\<forall>c\<in>set ?y. \<not> is_mark c \<and> \<not> is_punct c"
      using normalizeText_with_units by blast
    show "single_spaced ?y" using normalizeText_with_shape by blast
    show "?y = [] \<or> (\<not> is_space (hd ?y) \<and> \<not> is_space (last ?y))"
      using normalizeText_with_shape by blast
  qed
  have kept: "normalizeText_with lower decompose ?y = ?y"
    if wf: "well_formed x" and z: "canonically_ordered cls (code_points ?z)"
  proof -
    from wf have w: "well_formed ?w" by (intro decompose_well_formed lower_well_formed)
    have low: "\<forall>c\<in>set (code_points ?w). lowercase c"
      by (intro decompose_lowercase lower_lowercase)
    have dec: "\<forall>c\<in>set (code_points ?w). decomposed c" by (rule decompose_decomposed)
    have "set (code_points ?y) \<subseteq> insert 0x20 (set (code_points ?w))
        \<and> canonically_ordered cls (code_points ?y)"
      using w _ z by (rule normalizeText_with_code_points) (simp add: space)
    with low dec space show ?thesis by (intro settled) blast+
  qed
  have "normalizeText_with lower decompose ?y = ?y"
    if wf: "well_formed x" and j: "0x34F \<notin> set x"
  proof -
    from wf have w: "well_formed ?w" by (intro decompose_well_formed lower_well_formed)
    from j have jw: "0x34F \<notin> set ?w" by (intro decompose_joiner lower_joiner)
    have m: "\<forall>c\<in>set (code_points ?w). \<not> \<not> is_mark c \<longrightarrow> cls c \<noteq> 0"
    proof (intro ballI impI)
      fix c
      assume c: "c \<in> set (code_points ?w)" and "\<not> \<not> is_mark c"
      then have mark: "is_mark c" by simp
      then have "c < 0x10000" by (simp add: is_mark_def)
      with c have "c \<in> set ?w" using code_points_units by fastforce
      with jw have "c \<noteq> 0x34F" by blast
      with mark show "cls c \<noteq> 0" by (rule marks)
    qed
    have "canonically_ordered cls (filter (\<lambda>c. \<not> is_mark c) (code_points ?w))"
      using decompose_ordered m by (rule ordered_filter)
    then have "canonically_ordered cls (code_points ?z)"
      using w by (simp add: code_points_strip)
    with wf show ?thesis by (rule kept)
  qed
  with settled kept show ?thesis by blast
qed

text \<open>
  The tabulated \<open>toLowerCase\<close> and \<open>nfd\<close> have these properties, so that the statement
  applies to \<open>normalizeText\<close>; the string of the example is U+00A1 \<open>H\<close> U+00F3 \<open>la\<close> U+0301,
  a space, U+1F600 as a surrogate pair and \<open>!\<close>.
\<close>

theorem normalizeText_idempotent_witness:
  "well_formed [0xA1, 0x48, 0xF3, 0x6C, 0x61, 0x301, 0x20, 0xD83D, 0xDE00, 0x21]
   \<and> 0x34F \<notin> set ([0xA1, 0x48, 0xF3, 0x6C, 0x61, 0x301, 0x20, 0xD83D, 0xDE00, 0x21] :: jstring)
   \<and> normalizeText (normalizeText [0xA1, 0x48, 0xF3, 0x6C, 0x61, 0x301, 0x20, 0xD83D, 0xDE00, 0x21])
       = normalizeText [0xA1, 0x48, 0xF3, 0x6C, 0x61, 0x301, 0x20, 0xD83D, 0xDE00, 0x21]"
proof -
  let ?x = "[0xA1, 0x48, 0xF3, 0x6C, 0x61, 0x301, 0x20, 0xD83D, 0xDE00, 0x21] :: jstring"
  have w: "well_formed ?x" by (simp add: is_leading_def is_trailing_def)
  have j: "0x34F \<notin> set ?x" by simp
  note idempotent = normalizeText_idempotent
    [of "\<lambda>c. lower_cu c = c" toLowerCase "\<lambda>c. decomp c = [c]" ccc nfd ?x,
     OF toLowerCase_fixed toLowerCase_lowercase toLowerCase_well_formed toLowerCase_joiner
        nfd_fixed nfd_decomposed nfd_ordered nfd_lowercase nfd_well_formed nfd_joiner
        space_plain marks_reordered]
  with w j have "normalizeText_with toLowerCase nfd (normalizeText_with toLowerCase nfd ?x)
      = normalizeText_with toLowerCase nfd ?x"
    by blast
  with w j show ?thesis unfolding normalizeText_instance by blast
qed

section \<open>The excluded words veto every other rule\<close>

lemma excluded_hit_iff:
  "excluded_hit nm ws \<longleftrightarrow> (\<exists>w\<in>set ws. \<exists>pre post. nm = pre @ normalizeText w @ post)"
  by (simp add: excluded_hit_def list_ex_iff includes_js_iff)

text \<open>
  Claim C2: for every message and every rule set, if the normalisation of some entry of
  \<open>excluded_words\<close> is a substring of the normalised message, then \<open>matchKeywords\<close>
  returns none, whatever \<open>exact_matches\<close>, \<open>keywords\<close> and \<open>synonyms\<close> hold.
\<close>

theorem matchKeywords_excluded_veto:
  assumes "excluded_words tk = Some ws" and "w \<in> set ws"
    and "normalizeText messageText = pre @ normalizeText w @ post"
  shows "matchKeywords messageText (Some tk) = None"
proof -
  from assms have "excluded_hit (normalizeText messageText) (array_of (excluded_words tk))"
    unfolding excluded_hit_iff array_of_def by auto
  then show ?thesis by (simp add: matchKeywords_def Let_def)
qed

theorem matchKeywords_excluded_veto_witness:
  "matchKeywords (js ''Precio del lote? No, gracias!'')
     (Some \<lparr>exact_matches = Some [js ''precio del lote''], keywords_tk = Some [js ''lote''],
            synonyms = Some [(js ''precio'', Some [js ''costo''])],
            excluded_words = Some [js ''No gracias'']\<rparr>) = None"
proof -
  have m: "normalizeText (js ''Precio del lote? No, gracias!'') = js ''precio del lote no gracias''"
    by (simp add: ascii_defs)
  have w: "normalizeText (js ''No gracias'') = js ''no gracias''"
    by (simp add: ascii_defs)
  have "normalizeText (js ''Precio del lote? No, gracias!'')
          = js ''precio del lote '' @ normalizeText (js ''No gracias'') @ []"
    unfolding m w by (simp add: js_def)
  then show ?thesis
    using matchKeywords_excluded_veto [of
        "\<lparr>exact_matches = Some [js ''precio del lote''], keywords_tk = Some [js ''lote''],
            synonyms = Some [(js ''precio'', Some [js ''costo''])],
            excluded_words = Some [js ''No gracias'']\<rparr>"
        "[js ''No gracias'']" "js ''No gracias''" "js ''Precio del lote? No, gracias!''"
        "js ''precio del lote ''" "[]"]
    by simp
qed

section \<open>The end-to-end example\<close>

lemma example_includes:
  "includes_js (js ''hola info del yanachaga ecovillage gracias'') (js ''yanachaga ecovillage'')"
  by (simp add: js_def)

text \<open>
  Claim C8, as stated, has the match of \<open>yanachaga ecovillage\<close> in
  \<open>Hola! info del Yanachaga Ecovillage, gracias\<close> found by word containment because the
  phrase is not a contiguous substring of the normalised message. The phrase is a contiguous
  substring of the normalised message.
\<close>

theorem example_phrase_is_contiguous:
  "includes_js (normalizeText (js ''Hola! info del Yanachaga Ecovillage, gracias''))
     (normalizeText (js ''yanachaga ecovillage''))"
  by (simp only: example_message_normalized example_keyword_normalized example_includes)

text \<open>
  Claim C8, amended: for that message and the rule set with the one keyword
  \<open>yanachaga ecovillage\<close>, \<open>matchKeywords\<close> returns a match of type \<open>KEYWORD\<close> with
  matched text \<open>yanachaga ecovillage\<close>, and the first test of \<open>containsKeyword\<close>, the
  search for the whole phrase in the normalised message, is the one that succeeds.
\<close>

theorem example_keyword_match:
  "matchKeywords (js ''Hola! info del Yanachaga Ecovillage, gracias'')
     (Some \<lparr>exact_matches = None, keywords_tk = Some [js ''yanachaga ecovillage''],
            synonyms = None, excluded_words = None\<rparr>)
   = Some \<lparr>matched = js ''yanachaga ecovillage'', mtype = KEYWORD\<rparr>
   \<and> includes_js (normalizeText (js ''Hola! info del Yanachaga Ecovillage, gracias''))
        (normalizeText (js ''yanachaga ecovillage''))"
proof -
  have ne: "js ''Hola! info del Yanachaga Ecovillage, gracias'' \<noteq> []" by (simp add: js_def)
  show ?thesis
    using ne example_includes
    by (simp add: matchKeywords_def Let_def array_of_def excluded_hit_def containsKeyword_def
          example_message_normalized example_keyword_normalized)
qed

section \<open>Phrases that normalise to the empty string\<close>

lemma containsKeyword_empty: "containsKeyword m []"
  by (simp add: containsKeyword_def includes_js_empty)

lemma excluded_hit_empty_entry:
  "w \<in> set ws \<Longrightarrow> normalizeText w = [] \<Longrightarrow> excluded_hit nm ws"
  unfolding excluded_hit_def list_ex_iff using includes_js_empty by metis

lemma find_empty_entry:
  "e \<in> set ps \<Longrightarrow> normalizeText e = [] \<Longrightarrow>
     \<exists>p. find (\<lambda>phrase. containsKeyword nm (normalizeText phrase)) ps = Some p"
  by (cases "find (\<lambda>phrase. containsKeyword nm (normalizeText phrase)) ps")
     (auto simp: find_None_iff containsKeyword_empty)

text \<open>
  Claim C9, as stated, lets an entry of \<open>exact_matches\<close> or \<open>keywords\<close> that normalises
  to the empty string match every message that the excluded words do not veto. The empty
  message is not vetoed by a rule set without excluded words, and \<open>matchKeywords\<close> returns
  none for it before any entry is looked at.
\<close>

theorem empty_message_never_matches:
  "normalizeText (js ''?!'') = []
   \<and> \<not> excluded_hit (normalizeText []) (array_of None)
   \<and> matchKeywords []
        (Some \<lparr>exact_matches = Some [js ''?!''], keywords_tk = Some [js ''?!''],
               synonyms = None, excluded_words = None\<rparr>) = None"
  by (simp add: punctuation_normalized excluded_hit_def array_of_def matchKeywords_def)

text \<open>
  Claim C9, amended: \<open>containsKeyword m []\<close> holds for every \<open>m\<close>, so an entry that
  normalises to the empty string passes \<open>containsKeyword\<close> for every message; if some entry
  of \<open>excluded_words\<close> normalises to the empty string, \<open>matchKeywords\<close> returns none for
  every message; and if some entry of \<open>exact_matches\<close> or of \<open>keywords\<close> normalises to the
  empty string, \<open>matchKeywords\<close> returns a match (of type \<open>EXACT\<close> in the first case,
  \<open>EXACT\<close> or \<open>KEYWORD\<close> in the second) for every non-empty message that the excluded
  words do not veto.
\<close>

theorem empty_phrase_matches:
  "containsKeyword m []
   \<and> (normalizeText e = [] \<longrightarrow> containsKeyword (normalizeText messageText) (normalizeText e))
   \<and> (excluded_words tk = Some ws \<and> w \<in> set ws \<and> normalizeText w = []
        \<longrightarrow> matchKeywords messageText (Some tk) = None)
   \<and> (messageText \<noteq> []
        \<and> \<not> excluded_hit (normalizeText messageText) (array_of (excluded_words tk))
        \<and> e \<in> set (array_of (exact_matches tk)) \<and> normalizeText e = []
        \<longrightarrow> (\<exists>p. matchKeywords messageText (Some tk) = Some \<lparr>matched = p, mtype = EXACT\<rparr>))
   \<and> (messageText \<noteq> []
        \<and> \<not> excluded_hit (normalizeText messageText) (array_of (excluded_words tk))
        \<and> k \<in> set (array_of (keywords_tk tk)) \<and> normalizeText k = []
        \<longrightarrow> (\<exists>p t. matchKeywords messageText (Some tk) = Some \<lparr>matched = p, mtype = t\<rparr>
                  \<and> (t = EXACT \<or> t = KEYWORD)))"
proof (intro conjI impI)
  show "containsKeyword m []" by (rule containsKeyword_empty)
next
  assume "normalizeText e = []"
  then show "containsKeyword (normalizeText messageText) (normalizeText e)"
    by (simp add: containsKeyword_empty)
next
  assume "excluded_words tk = Some ws \<and> w \<in> set ws \<and> normalizeText w = []"
  then have "excluded_hit (normalizeText messageText) (array_of (excluded_words tk))"
    by (auto simp: array_of_def intro: excluded_hit_empty_entry)
  then show "matchKeywords messageText (Some tk) = None"
    by (simp add: matchKeywords_def Let_def)
next
  assume a: "messageText \<noteq> []
        \<and> \<not> excluded_hit (normalizeText messageText) (array_of (excluded_words tk))
        \<and> e \<in> set (array_of (exact_matches tk)) \<and> normalizeText e = []"
  then obtain p where
    "find (\<lambda>phrase. containsKeyword (normalizeText messageText) (normalizeText phrase))
       (array_of (exact_matches tk)) = Some p"
    using find_empty_entry by blast
  with a show "\<exists>p. matchKeywords messageText (Some tk) = Some \<lparr>matched = p, mtype = EXACT\<rparr>"
    by (simp add: matchKeywords_def Let_def)
next
  assume a: "messageText \<noteq> []
        \<and> \<not> excluded_hit (normalizeText messageText) (array_of (excluded_words tk))
        \<and> k \<in> set (array_of (keywords_tk tk)) \<and> normalizeText k = []"
  then obtain p where
    "find (\<lambda>keyword. containsKeyword (normalizeText messageText) (normalizeText keyword))
       (array_of (keywords_tk tk)) = Some p"
    using find_empty_entry by blast
  with a show "\<exists>p t. matchKeywords messageText (Some tk) = Some \<lparr>matched = p, mtype = t\<rparr>
                  \<and> (t = EXACT \<or> t = KEYWORD)"
    by (cases "find (\<lambda>phrase. containsKeyword (normalizeText messageText) (normalizeText phrase))
                 (array_of (exact_matches tk))")
       (simp_all add: matchKeywords_def Let_def)
qed

theorem empty_phrase_matches_witness:
  "matchKeywords (js ''hola'')
     (Some \<lparr>exact_matches = None, keywords_tk = None, synonyms = None,
            excluded_words = Some [js ''?!'']\<rparr>) = None
   \<and> (\<exists>p. matchKeywords (js ''hola'')
          (Some \<lparr>exact_matches = Some [js ''?!''], keywords_tk = Some [js ''?!''],
                 synonyms = None, excluded_words = None\<rparr>)
        = Some \<lparr>matched = p, mtype = EXACT\<rparr>)"
proof -
  have ne: "js ''hola'' \<noteq> []" by (simp add: js_def)
  show ?thesis
    using ne
      empty_phrase_matches [where
        tk = "\<lparr>exact_matches = None, keywords_tk = None, synonyms = None,
               excluded_words = Some [js ''?!'']\<rparr>"
        and ws = "[js ''?!'']" and w = "js ''?!''" and messageText = "js ''hola''"
        and m = "[]" and e = "[]" and k = "[]"]
      empty_phrase_matches [where
        tk = "\<lparr>exact_matches = Some [js ''?!''], keywords_tk = Some [js ''?!''],
               synonyms = None, excluded_words = None\<rparr>"
        and ws = "[]" and w = "[]" and messageText = "js ''hola''"
        and m = "[]" and e = "js ''?!''" and k = "js ''?!''"]
    by (simp add: punctuation_normalized excluded_hit_def array_of_def)
qed

section \<open>Properties of the rate limiter\<close>

lemma db_query_ok: "query_error e w q = None \<Longrightarrow> db_query e w q = (Inr (), w)"
  by (simp add: db_query_def)

lemma db_query_error: "query_error e w q = Some err \<Longrightarrow> db_query e w q = (Inl err, w)"
  by (simp add: db_query_def)

lemma then_do_Inr: "then_do (Inr a, s) f = f a s"
  by (simp add: then_do_def)

lemma then_do_Inl: "then_do (Inl err, s) f = (Inl err, s)"
  by (simp add: then_do_def)

lemma not_listed: "p \<notin> set ps \<Longrightarrow> filter (\<lambda>q. q = p) ps = []"
  by (induction ps) auto

lemma unblocked_rows:
  assumes "r \<in> set (map (\<lambda>r. if user_phone r = p
                        then r\<lparr>is_blocked := False, blocked_until := None\<rparr> else r) rows)"
    and "user_phone r = p"
  shows "\<not> is_blocked r \<and> blocked_until r = None"
proof -
  from assms(1) obtain x where
    "r = (if user_phone x = p then x\<lparr>is_blocked := False, blocked_until := None\<rparr> else x)"
    unfolding set_map by blast
  with assms(2) show ?thesis by (cases "user_phone x = p") simp_all
qed

lemma empty_world_simps:
  "blocked_numbers empty_world = []" "user_rate_limit empty_world = []"
  "bot_conversations empty_world = []" "bot_message_log empty_world = []"
  "campaigns empty_world = []" "messages empty_world = []"
  "message_media empty_world = []" "outbox empty_world = []"
  by (simp_all add: empty_world_def)

lemma quiet_env_simps:
  "now quiet_env = 1000" "rateLimits_hour quiet_env = 3" "rateLimits_day quiet_env = 8"
  "query_error quiet_env w q = None"
  "sendMessage_result quiet_env w out = Inr ''true_51999000111@c.us_3EB0''"
  "http_get quiet_env w url = Inr ''AAAA''"
  "getContact_result quiet_env w = Inr (Some (js ''Ana''), None)"
  "substitute quiet_env text variables = text"
  by (simp_all add: quiet_env_def)

text \<open>
  Claim C5: for a sender who is not permanently blocked and whose record has
  \<open>is_blocked\<close> set, \<open>checkRateLimit\<close> answers \<open>UNBLOCKED\<close>, allowed, and clears
  \<open>is_blocked\<close> and \<open>blocked_until\<close> in the same call when \<open>blocked_until\<close> is set and
  in the past; otherwise (\<open>blocked_until\<close> not in the past, or not set) it answers
  \<open>BLOCKED_TEMPORARY\<close>, not allowed, and leaves the store as it was. The database is
  taken to accept the statements; what happens when it does not is claim C6.
\<close>

theorem checkRateLimit_blocked:
  assumes "userPhone \<notin> set (blocked_numbers w)"
    and "filter (\<lambda>r. user_phone r = userPhone) (user_rate_limit w) = record # others"
    and "is_blocked record"
    and "\<forall>q. query_error e w q = None"
  shows "((\<exists>t. blocked_until record = Some t \<and> t < now e) \<longrightarrow>
            checkRateLimit e w userPhone =
              (\<lparr>allowed = True, reason = UNBLOCKED\<rparr>,
               w\<lparr>user_rate_limit :=
                   map (\<lambda>r. if user_phone r = userPhone
                             then r\<lparr>is_blocked := False, blocked_until := None\<rparr> else r)
                     (user_rate_limit w)\<rparr>)
            \<and> (\<forall>r\<in>set (user_rate_limit (snd (checkRateLimit e w userPhone))).
                  user_phone r = userPhone \<longrightarrow> \<not> is_blocked r \<and> blocked_until r = None))
       \<and> (\<not> (\<exists>t. blocked_until record = Some t \<and> t < now e) \<longrightarrow>
            checkRateLimit e w userPhone = (\<lparr>allowed = False, reason = BLOCKED_TEMPORARY\<rparr>, w))"
proof (intro conjI impI)
  from assms(4) have q: "db_query e w Q_blocked_numbers = (Inr (), w)"
    "db_query e w Q_select_rate_limit = (Inr (), w)" "db_query e w Q_unblock = (Inr (), w)"
    by (simp_all add: db_query_ok)
  from assms(1) have nb: "filter (\<lambda>p. p = userPhone) (blocked_numbers w) = []"
    by (rule not_listed)
  {
    assume "\<exists>t. blocked_until record = Some t \<and> t < now e"
    then obtain t where t: "blocked_until record = Some t" "t < now e" by blast
    then show eq: "checkRateLimit e w userPhone =
              (\<lparr>allowed = True, reason = UNBLOCKED\<rparr>,
               w\<lparr>user_rate_limit :=
                   map (\<lambda>r. if user_phone r = userPhone
                             then r\<lparr>is_blocked := False, blocked_until := None\<rparr> else r)
                     (user_rate_limit w)\<rparr>)"
      using assms(2,3) q nb
      by (simp add: checkRateLimit_def checkRateLimit_try_def then_do_Inr)
    show "\<forall>r\<in>set (user_rate_limit (snd (checkRateLimit e w userPhone))).
                  user_phone r = userPhone \<longrightarrow> \<not> is_blocked r \<and> blocked_until r = None"
    proof -
      have rows: "user_rate_limit (snd (checkRateLimit e w userPhone)) =
          map (\<lambda>r. if user_phone r = userPhone
                    then r\<lparr>is_blocked := False, blocked_until := None\<rparr> else r)
            (user_rate_limit w)"
        unfolding eq by simp
      show ?thesis unfolding rows using unblocked_rows by blast
    qed
  }
  {
    assume n: "\<not> (\<exists>t. blocked_until record = Some t \<and> t < now e)"
    show "checkRateLimit e w userPhone = (\<lparr>allowed = False, reason = BLOCKED_TEMPORARY\<rparr>, w)"
    proof (cases "blocked_until record")
      case None
      then show ?thesis
        using assms(2,3) q nb
        by (simp add: checkRateLimit_def checkRateLimit_try_def then_do_Inr)
    next
      case (Some t)
      with n have "\<not> t < now e" by simp
      with Some show ?thesis
        using assms(2,3) q nb
        by (simp add: checkRateLimit_def checkRateLimit_try_def then_do_Inr)
    qed
  }
qed

theorem checkRateLimit_blocked_witness:
  "checkRateLimit quiet_env (empty_world\<lparr>user_rate_limit := [blocked_row (Some 500)]\<rparr>)
     ''51999000111@c.us''
   = (\<lparr>allowed = True, reason = UNBLOCKED\<rparr>,
      empty_world\<lparr>user_rate_limit :=
        [(blocked_row (Some 500))\<lparr>is_blocked := False, blocked_until := None\<rparr>]\<rparr>)
   \<and> checkRateLimit quiet_env (empty_world\<lparr>user_rate_limit := [blocked_row None]\<rparr>)
        ''51999000111@c.us''
     = (\<lparr>allowed = False, reason = BLOCKED_TEMPORARY\<rparr>,
        empty_world\<lparr>user_rate_limit := [blocked_row None]\<rparr>)"
proof -
  have past: "checkRateLimit quiet_env
        (empty_world\<lparr>user_rate_limit := [blocked_row (Some 500)]\<rparr>) ''51999000111@c.us''
      = (\<lparr>allowed = True, reason = UNBLOCKED\<rparr>,
         empty_world\<lparr>user_rate_limit :=
           [(blocked_row (Some 500))\<lparr>is_blocked := False, blocked_until := None\<rparr>]\<rparr>)"
    using checkRateLimit_blocked [of "''51999000111@c.us''"
        "empty_world\<lparr>user_rate_limit := [blocked_row (Some 500)]\<rparr>"
        "blocked_row (Some 500)" "[]" quiet_env, THEN conjunct1]
    by (simp add: empty_world_simps quiet_env_simps blocked_row_def)
  have unset: "checkRateLimit quiet_env
        (empty_world\<lparr>user_rate_limit := [blocked_row None]\<rparr>) ''51999000111@c.us''
      = (\<lparr>allowed = False, reason = BLOCKED_TEMPORARY\<rparr>,
         empty_world\<lparr>user_rate_limit := [blocked_row None]\<rparr>)"
    using checkRateLimit_blocked [of "''51999000111@c.us''"
        "empty_world\<lparr>user_rate_limit := [blocked_row None]\<rparr>"
        "blocked_row None" "[]" quiet_env, THEN conjunct2]
    by (simp add: empty_world_simps quiet_env_simps blocked_row_def)
  from past unset show ?thesis by (rule conjI)
qed

text \<open>
  Claim C6: if a storage access of \<open>checkRateLimit\<close> fails, \<open>checkRateLimit\<close> does
  not throw but answers \<open>ERROR_CHECK\<close>, allowed. The function has three accesses: the
  look-up in \<open>blocked_numbers\<close>, the look-up in \<open>user_rate_limit\<close> and the update that
  lifts an expired block.
\<close>

theorem checkRateLimit_fails_open:
  "(fst (checkRateLimit_try e w userPhone) = Inl err \<longrightarrow>
      fst (checkRateLimit e w userPhone) = \<lparr>allowed = True, reason = ERROR_CHECK\<rparr>)
   \<and> (query_error e w Q_blocked_numbers = Some err \<longrightarrow>
        checkRateLimit e w userPhone = (\<lparr>allowed = True, reason = ERROR_CHECK\<rparr>, w))
   \<and> (query_error e w Q_blocked_numbers = None \<and> userPhone \<notin> set (blocked_numbers w)
        \<and> query_error e w Q_select_rate_limit = Some err \<longrightarrow>
        checkRateLimit e w userPhone = (\<lparr>allowed = True, reason = ERROR_CHECK\<rparr>, w))
   \<and> (query_error e w Q_blocked_numbers = None \<and> userPhone \<notin> set (blocked_numbers w)
        \<and> query_error e w Q_select_rate_limit = None
        \<and> filter (\<lambda>r. user_phone r = userPhone) (user_rate_limit w) = record # others
        \<and> is_blocked record \<and> blocked_until record = Some t \<and> t < now e
        \<and> query_error e w Q_unblock = Some err \<longrightarrow>
        checkRateLimit e w userPhone = (\<lparr>allowed = True, reason = ERROR_CHECK\<rparr>, w))"
proof (intro conjI impI)
  assume "fst (checkRateLimit_try e w userPhone) = Inl err"
  then show "fst (checkRateLimit e w userPhone) = \<lparr>allowed = True, reason = ERROR_CHECK\<rparr>"
    by (cases "checkRateLimit_try e w userPhone") (simp add: checkRateLimit_def)
next
  assume "query_error e w Q_blocked_numbers = Some err"
  then show "checkRateLimit e w userPhone = (\<lparr>allowed = True, reason = ERROR_CHECK\<rparr>, w)"
    by (simp add: checkRateLimit_def checkRateLimit_try_def db_query_error then_do_Inl)
next
  assume a: "query_error e w Q_blocked_numbers = None \<and> userPhone \<notin> set (blocked_numbers w)
        \<and> query_error e w Q_select_rate_limit = Some err"
  then have "filter (\<lambda>p. p = userPhone) (blocked_numbers w) = []" by (simp add: not_listed)
  with a show "checkRateLimit e w userPhone = (\<lparr>allowed = True, reason = ERROR_CHECK\<rparr>, w)"
    by (simp add: checkRateLimit_def checkRateLimit_try_def db_query_error db_query_ok
          then_do_Inl then_do_Inr)
next
  assume a: "query_error e w Q_blocked_numbers = None \<and> userPhone \<notin> set (blocked_numbers w)
        \<and> query_error e w Q_select_rate_limit = None
        \<and> filter (\<lambda>r. user_phone r = userPhone) (user_rate_limit w) = record # others
        \<and> is_blocked record \<and> blocked_until record = Some t \<and> t < now e
        \<and> query_error e w Q_unblock = Some err"
  then have "filter (\<lambda>p. p = userPhone) (blocked_numbers w) = []" by (simp add: not_listed)
  with a show "checkRateLimit e w userPhone = (\<lparr>allowed = True, reason = ERROR_CHECK\<rparr>, w)"
    by (simp add: checkRateLimit_def checkRateLimit_try_def db_query_error db_query_ok
          then_do_Inl then_do_Inr)
qed

theorem checkRateLimit_fails_open_witness:
  "checkRateLimit
     (quiet_env\<lparr>query_error :=
        (\<lambda>w q. if q = Q_select_rate_limit then Some ''connect ETIMEDOUT'' else None)\<rparr>)
     empty_world ''51999000111@c.us''
   = (\<lparr>allowed = True, reason = ERROR_CHECK\<rparr>, empty_world)"
  using checkRateLimit_fails_open [of
      "quiet_env\<lparr>query_error :=
        (\<lambda>w q. if q = Q_select_rate_limit then Some ''connect ETIMEDOUT'' else None)\<rparr>"
      empty_world "''51999000111@c.us''" "''connect ETIMEDOUT''"]
  by (simp add: empty_world_simps quiet_env_simps)

section \<open>Properties of the dispatcher\<close>

subsection \<open>The send functions only add to the outbox\<close>

lemma then_do_cases:
  assumes "then_do r f = (res, s')"
  obtains (thrown) err where "r = (Inl err, s')" "res = Inl err"
        | (passed) a s where "r = (Inr a, s)" "f a s = (res, s')"
proof (cases r)
  case (Pair x s)
  then show ?thesis using assms that by (cases x) (auto simp: then_do_def)
qed

lemma db_query_world: "db_query e w q = (r, w') \<Longrightarrow> w' = w"
  by (auto simp: db_query_def split: option.splits)

lemma getMessageMedia_world: "getMessageMedia e w i = (r, w') \<Longrightarrow> w' = w"
  unfolding getMessageMedia_def
  by (erule then_do_cases) (auto dest: db_query_world)

lemma downloadMediaFromUrl_world: "downloadMediaFromUrl e w u m f = (r, w') \<Longrightarrow> w' = w"
  by (auto simp: downloadMediaFromUrl_def split: sum.splits)

lemma client_sendMessage_outbox:
  "client_sendMessage e w p b opts = (r, w') \<Longrightarrow> \<exists>sent. outbox w' = outbox w @ sent"
  by (auto simp: client_sendMessage_def Let_def split: sum.splits)

lemma fetch_and_send_outbox:
  assumes "then_do (downloadMediaFromUrl e w u m f) (\<lambda>media w. client_sendMessage e w p media opts)
             = (r, w')"
  shows "\<exists>sent. outbox w' = outbox w @ sent"
  using assms
proof (cases rule: then_do_cases)
  case (thrown err)
  from thrown(1) have "w' = w" by (rule downloadMediaFromUrl_world)
  then show ?thesis by simp
next
  case (passed a s)
  from passed(1) have "s = w" by (rule downloadMediaFromUrl_world)
  with passed(2) show ?thesis using client_sendMessage_outbox by blast
qed

lemma sendTextMessage_outbox:
  "sendTextMessage e w p msg v = (r, w') \<Longrightarrow> \<exists>sent. outbox w' = outbox w @ sent"
  unfolding sendTextMessage_def by (rule client_sendMessage_outbox)

lemma sendImageMessage_outbox:
  assumes "sendImageMessage e w p msg v = (r, w')"
  shows "\<exists>sent. outbox w' = outbox w @ sent"
  using assms unfolding sendImageMessage_def
proof (cases rule: then_do_cases)
  case (thrown err)
  from thrown(1) have "w' = w" by (rule getMessageMedia_world)
  then show ?thesis by simp
next
  case (passed files s)
  from passed(1) have s: "s = w" by (rule getMessageMedia_world)
  show ?thesis
  proof (cases files)
    case Nil
    with passed s show ?thesis by simp
  next
    case (Cons mediaFile rest)
    with passed s show ?thesis using fetch_and_send_outbox by simp
  qed
qed

lemma sendAudioMessage_outbox:
  assumes "sendAudioMessage e w p msg = (r, w')"
  shows "\<exists>sent. outbox w' = outbox w @ sent"
  using assms unfolding sendAudioMessage_def
proof (cases rule: then_do_cases)
  case (thrown err)
  from thrown(1) have "w' = w" by (rule getMessageMedia_world)
  then show ?thesis by simp
next
  case (passed files s)
  from passed(1) have s: "s = w" by (rule getMessageMedia_world)
  show ?thesis
  proof (cases files)
    case Nil
    with passed s show ?thesis by simp
  next
    case (Cons mediaFile rest)
    with passed s show ?thesis using fetch_and_send_outbox by simp
  qed
qed

lemma sendDocumentMessage_outbox:
  assumes "sendDocumentMessage e w p msg v = (r, w')"
  shows "\<exists>sent. outbox w' = outbox w @ sent"
  using assms unfolding sendDocumentMessage_def
proof (cases rule: then_do_cases)
  case (thrown err)
  from thrown(1) have "w' = w" by (rule getMessageMedia_world)
  then show ?thesis by simp
next
  case (passed files s)
  from passed(1) have s: "s = w" by (rule getMessageMedia_world)
  show ?thesis
  proof (cases files)
    case Nil
    with passed s show ?thesis by simp
  next
    case (Cons mediaFile rest)
    with passed s show ?thesis using fetch_and_send_outbox by simp
  qed
qed

lemma gallery_loop_outbox:
  "gallery_loop e p files lastId w = (r, w') \<Longrightarrow> \<exists>sent. outbox w' = outbox w @ sent"
proof (induction files arbitrary: lastId w)
  case Nil
  then show ?case by simp
next
  case (Cons mediaFile rest)
  obtain x w1 where step:
    "then_do (downloadMediaFromUrl e w (buildMediaUrl e (file_path mediaFile))
                (mime_or (mime_type mediaFile) ''image/jpeg'') ''file'')
       (\<lambda>media w. client_sendMessage e w p media no_options) = (x, w1)"
    by (cases "then_do (downloadMediaFromUrl e w (buildMediaUrl e (file_path mediaFile))
                (mime_or (mime_type mediaFile) ''image/jpeg'') ''file'')
       (\<lambda>media w. client_sendMessage e w p media no_options)") blast
  then obtain first where w1: "outbox w1 = outbox w @ first"
    using fetch_and_send_outbox by blast
  from Cons.prems step have "\<exists>l. gallery_loop e p rest l w1 = (r, w')"
    by (cases x) auto
  then obtain more where "outbox w' = outbox w1 @ more" using Cons.IH by blast
  with w1 have "outbox w' = outbox w @ (first @ more)" by simp
  then show ?case by blast
qed

lemma sendGalleryMessage_outbox:
  assumes "sendGalleryMessage e w p msg = (r, w')"
  shows "\<exists>sent. outbox w' = outbox w @ sent"
  using assms unfolding sendGalleryMessage_def
proof (cases rule: then_do_cases)
  case (thrown err)
  from thrown(1) have "w' = w" by (rule getMessageMedia_world)
  then show ?thesis by simp
next
  case (passed files s)
  from passed(1) have s: "s = w" by (rule getMessageMedia_world)
  show ?thesis
  proof (cases "length files = 0")
    case True
    with passed s show ?thesis by simp
  next
    case False
    obtain l w1 where g: "gallery_loop e p files None w = (l, w1)"
      by (cases "gallery_loop e p files None w") blast
    then obtain sent where "outbox w1 = outbox w @ sent" using gallery_loop_outbox by blast
    moreover from passed s False g have "w' = w1" by auto
    ultimately show ?thesis by simp
  qed
qed

lemma typed_send_outbox:
  assumes "(if type_code msg = ''TEXT'' then sendTextMessage e w p msg v
            else if type_code msg = ''IMAGE'' then sendImageMessage e w p msg v
            else if type_code msg = ''AUDIO'' then sendAudioMessage e w p msg
            else if type_code msg = ''DOCUMENT'' then sendDocumentMessage e w p msg v
            else sendGalleryMessage e w p msg) = (r, w')"
  shows "\<exists>sent. outbox w' = outbox w @ sent"
proof (cases "type_code msg = ''TEXT''")
  case True
  with assms show ?thesis using sendTextMessage_outbox by simp
next
  case t: False
  show ?thesis
  proof (cases "type_code msg = ''IMAGE''")
    case True
    with assms t show ?thesis using sendImageMessage_outbox by simp
  next
    case i: False
    show ?thesis
    proof (cases "type_code msg = ''AUDIO''")
      case True
      with assms t i show ?thesis using sendAudioMessage_outbox by simp
    next
      case a: False
      show ?thesis
      proof (cases "type_code msg = ''DOCUMENT''")
        case True
        with assms t i a show ?thesis using sendDocumentMessage_outbox by simp
      next
        case False
        with assms t i a show ?thesis using sendGalleryMessage_outbox by simp
      qed
    qed
  qed
qed

subsection \<open>What the loop counts and sends\<close>

lemma logMessageSent_outbox: "outbox (logMessageSent e w c i wid) = outbox w"
  by (simp add: logMessageSent_def db_query_def split: option.splits)

lemma logMessageFailed_outbox: "outbox (logMessageFailed e w c i err) = outbox w"
  by (simp add: logMessageFailed_def db_query_def split: option.splits)

lemma incrementMessagesSent_outbox:
  "incrementMessagesSent e w c = (r, w') \<Longrightarrow> outbox w' = outbox w"
  by (auto simp: incrementMessagesSent_def db_query_def then_do_def split: option.splits)

lemma send_item_outbox:
  assumes "send_item e w p c msg v = (r, w')"
  shows "\<exists>sent. outbox w' = outbox w @ sent"
  using assms unfolding send_item_def
proof (cases rule: then_do_cases)
  case (thrown err)
  from thrown(1) show ?thesis by (rule typed_send_outbox)
next
  case (passed wid s)
  from passed(1) obtain sent where "outbox s = outbox w @ sent"
    using typed_send_outbox by blast
  moreover from passed(2) have "outbox w' = outbox (logMessageSent e s c (msg_id msg) wid)"
    by (rule incrementMessagesSent_outbox)
  ultimately show ?thesis by (simp add: logMessageSent_outbox)
qed

lemma send_loop_counts:
  "send_loop e p c v plan sc fc w = (Inr (sc', fc'), w') \<Longrightarrow>
     sc' + fc' = sc + fc + length (filter (\<lambda>m. supported (type_code m)) plan)"
proof (induction plan arbitrary: sc fc w)
  case Nil
  then show ?case by simp
next
  case (Cons msg rest)
  show ?case
  proof (cases "supported (type_code msg)")
    case False
    with Cons show ?thesis by simp
  next
    case True
    obtain r w1 where item: "send_item e w p c msg v = (r, w1)"
      by (cases "send_item e w p c msg v") blast
    show ?thesis
    proof (cases r)
      case (Inr u)
      with Cons.prems True item
      have "send_loop e p c v rest (sc + 1) fc w1 = (Inr (sc', fc'), w')" by simp
      then have "sc' + fc' = (sc + 1) + fc + length (filter (\<lambda>m. supported (type_code m)) rest)"
        by (rule Cons.IH)
      with True show ?thesis by simp
    next
      case (Inl err)
      with Cons.prems True item
      have "send_loop e p c v rest sc (fc + 1) (logMessageFailed e w1 c (msg_id msg) err)
              = (Inr (sc', fc'), w')"
        by (cases "is_critical err") (simp_all add: Let_def)
      then have "sc' + fc' = sc + (fc + 1) + length (filter (\<lambda>m. supported (type_code m)) rest)"
        by (rule Cons.IH)
      with True show ?thesis by simp
    qed
  qed
qed

lemma sendSequentialMessages_cases:
  assumes "sendSequentialMessages e w p c plan v = (r, w')"
  obtains (aborted) err where "send_loop e p c v plan 0 0 w = (Inl err, w')" "r = Inl err"
  | (returned) sc fc where "send_loop e p c v plan 0 0 w = (Inr (sc, fc), w')"
      "r = Inr \<lparr>success = True, total = length plan, sent = sc, failed = fc\<rparr>"
proof (cases "send_loop e p c v plan 0 0 w")
  case (Pair x s)
  show ?thesis
  proof (cases x)
    case (Inl err)
    with Pair assms aborted show ?thesis by (simp add: sendSequentialMessages_def)
  next
    case (Inr counts)
    with Pair assms returned show ?thesis
      by (cases counts) (simp add: sendSequentialMessages_def)
  qed
qed

lemma getCampaignMessages_sorted:
  assumes "getCampaignMessages e w cid = (Inr plan, w')"
  shows "sorted (map sort_order plan)"
  using assms unfolding getCampaignMessages_def
proof (cases rule: then_do_cases)
  case (thrown err)
  then show ?thesis by simp
next
  case (passed a s)
  then show ?thesis by auto
qed

lemmas dispatch_defs = sendSequentialMessages_def supported_def send_item_def
  sendTextMessage_def client_sendMessage_def replaceVariables_def no_options_def
  logMessageSent_def logMessageFailed_def db_query_def incrementMessagesSent_def then_do_def
  is_critical_def text_item_def Let_def

subsection \<open>The loop works through the plan in its order\<close>

lemma send_loop_counters:
  "snd (send_loop e p c v plan sc fc w) = snd (send_loop e p c v plan sc' fc' w)"
proof (induction plan arbitrary: sc fc sc' fc' w)
  case Nil
  show ?case by simp
next
  case (Cons msg rest)
  show ?case
  proof (cases "supported (type_code msg)")
    case False
    then show ?thesis using Cons.IH by simp
  next
    case True
    obtain x w1 where item: "send_item e w p c msg v = (x, w1)"
      by (cases "send_item e w p c msg v") blast
    show ?thesis
    proof (cases x)
      case (Inr u)
      with True item show ?thesis using Cons.IH by simp
    next
      case (Inl err)
      with True item show ?thesis using Cons.IH by (simp add: Let_def)
    qed
  qed
qed

lemma world_before_start: "world_before e p c v plan w 0 = w"
  by (simp add: world_before_def)

lemma world_before_shift:
  assumes "\<And>xs. snd (send_loop e p c v (msg # xs) 0 0 w) = snd (send_loop e p c v xs 0 0 w1)"
  shows "world_before e p c v (msg # rest) w (Suc i) = world_before e p c v rest w1 i"
  by (simp add: world_before_def assms del: send_loop.simps)

lemma sends_shift:
  assumes "\<And>xs. snd (send_loop e p c v (msg # xs) 0 0 w) = snd (send_loop e p c v xs 0 0 w1)"
  shows "world_before e p c v (msg # rest) w (Suc i) = world_before e p c v rest w1 i"
    and "item_sends e p c v (msg # rest) w (Suc i) = item_sends e p c v rest w1 i"
    and "fails_critically e p c v (msg # rest) w (Suc i) err
           = fails_critically e p c v rest w1 i err"
  by (simp_all add: item_sends_def fails_critically_def Let_def world_before_shift [OF assms])

lemma attempts_step:
  assumes cont: "\<And>xs. snd (send_loop e p c v (msg # xs) 0 0 w) = snd (send_loop e p c v xs 0 0 w1)"
    and first: "outbox w1 = outbox w @ item_sends e p c v (msg # rest) w 0"
    and calm: "\<And>err. \<not> fails_critically e p c v (msg # rest) w 0 err"
    and tail: "attempts e p c v rest w1 r w' k"
  shows "attempts e p c v (msg # rest) w r w' (Suc k)"
proof -
  note shift = sends_shift [OF cont]
  have sends: "map (item_sends e p c v (msg # rest) w) [0..<Suc k] =
      item_sends e p c v (msg # rest) w 0 # map (item_sends e p c v rest w1) [0..<k]"
    by (simp add: map_upt_Suc shift del: upt_Suc)
  from tail have k: "k \<le> length rest"
    and ob: "outbox w' = outbox w1 @ concat (map (item_sends e p c v rest w1) [0..<k])"
    and q1: "\<forall>i<k. \<forall>err. fails_critically e p c v rest w1 i err \<longrightarrow> Suc i = k \<and> r = Inl err"
    and q2: "\<forall>result. r = Inr result \<longrightarrow> k = length rest"
    and q3: "\<forall>err. r = Inl err \<longrightarrow> 0 < k \<and> fails_critically e p c v rest w1 (k - 1) err"
    by (simp_all add: attempts_def)
  have a: "Suc k \<le> length (msg # rest)" using k by simp
  have b: "outbox w' = outbox w
            @ concat (map (item_sends e p c v (msg # rest) w) [0..<Suc k])"
    unfolding sends using ob first by simp
  have c: "\<forall>i<Suc k. \<forall>err. fails_critically e p c v (msg # rest) w i err
             \<longrightarrow> Suc i = Suc k \<and> r = Inl err"
  proof (intro allI impI)
    fix i err
    assume i: "i < Suc k" and f: "fails_critically e p c v (msg # rest) w i err"
    show "Suc i = Suc k \<and> r = Inl err"
    proof (cases i)
      case 0
      with f calm show ?thesis by simp
    next
      case (Suc j)
      with i f q1 shift(3) show ?thesis by simp
    qed
  qed
  have d: "\<forall>result. r = Inr result \<longrightarrow> Suc k = length (msg # rest)" using q2 by simp
  have e: "\<forall>err. r = Inl err
             \<longrightarrow> 0 < Suc k \<and> fails_critically e p c v (msg # rest) w (Suc k - 1) err"
  proof (intro allI impI)
    fix err
    assume "r = Inl err"
    with q3 have "0 < k" and "fails_critically e p c v rest w1 (k - 1) err" by simp_all
    then obtain j where "k = Suc j" and "fails_critically e p c v rest w1 j err"
      by (cases k) simp_all
    then show "0 < Suc k \<and> fails_critically e p c v (msg # rest) w (Suc k - 1) err"
      using shift(3) by simp
  qed
  from a b c d e show ?thesis unfolding attempts_def by blast
qed

lemma send_item_sends:
  assumes "supported (type_code msg)" and "send_item e w p c msg v = (x, w1)"
  shows "outbox w1 = outbox w @ item_sends e p c v (msg # rest) w 0"
proof -
  from assms(2) obtain sent where "outbox w1 = outbox w @ sent"
    using send_item_outbox by blast
  with assms show ?thesis by (simp add: item_sends_def world_before_start)
qed

lemma send_loop_attempts:
  "send_loop e p c v plan sc fc w = (r, w') \<Longrightarrow> \<exists>k. attempts e p c v plan w r w' k"
proof (induction plan arbitrary: sc fc w)
  case Nil
  then have "attempts e p c v [] w r w' 0" by (auto simp: attempts_def)
  then show ?case by blast
next
  case (Cons msg rest)
  show ?case
  proof (cases "supported (type_code msg)")
    case False
    with Cons.prems have "send_loop e p c v rest sc fc w = (r, w')" by simp
    then obtain k where k: "attempts e p c v rest w r w' k" using Cons.IH by blast
    have "attempts e p c v (msg # rest) w r w' (Suc k)"
    proof (rule attempts_step [OF _ _ _ k])
      show "snd (send_loop e p c v (msg # xs) 0 0 w) = snd (send_loop e p c v xs 0 0 w)" for xs
        using False by simp
      show "outbox w = outbox w @ item_sends e p c v (msg # rest) w 0"
        using False by (simp add: item_sends_def)
      show "\<not> fails_critically e p c v (msg # rest) w 0 err" for err
        using False by (simp add: fails_critically_def)
    qed
    then show ?thesis by blast
  next
    case True
    obtain x w1 where item: "send_item e w p c msg v = (x, w1)"
      by (cases "send_item e w p c msg v") blast
    note first = send_item_sends [OF True item]
    show ?thesis
    proof (cases x)
      case (Inr u)
      with Cons.prems True item
      have "send_loop e p c v rest (sc + 1) fc w1 = (r, w')" by simp
      then obtain k where k: "attempts e p c v rest w1 r w' k" using Cons.IH by blast
      have "attempts e p c v (msg # rest) w r w' (Suc k)"
      proof (rule attempts_step [OF _ _ _ k])
        show "snd (send_loop e p c v (msg # xs) 0 0 w) = snd (send_loop e p c v xs 0 0 w1)"
          for xs
          using True item Inr send_loop_counters [of e p c v xs "0 + 1" 0 w1 0 0] by simp
        show "outbox w1 = outbox w @ item_sends e p c v (msg # rest) w 0" by (rule first)
        show "\<not> fails_critically e p c v (msg # rest) w 0 err" for err
          using item Inr by (simp add: fails_critically_def world_before_start)
      qed
      then show ?thesis by blast
    next
      case (Inl err)
      let ?w2 = "logMessageFailed e w1 c (msg_id msg) err"
      have first2: "outbox ?w2 = outbox w @ item_sends e p c v (msg # rest) w 0"
        using first by (simp add: logMessageFailed_outbox)
      show ?thesis
      proof (cases "is_critical err")
        case False
        with Cons.prems True item Inl
        have "send_loop e p c v rest sc (fc + 1) ?w2 = (r, w')" by (simp add: Let_def)
        then obtain k where k: "attempts e p c v rest ?w2 r w' k" using Cons.IH by blast
        have "attempts e p c v (msg # rest) w r w' (Suc k)"
        proof (rule attempts_step [OF _ _ _ k])
          show "snd (send_loop e p c v (msg # xs) 0 0 w) = snd (send_loop e p c v xs 0 0 ?w2)"
            for xs
            using True item Inl False send_loop_counters [of e p c v xs 0 "0 + 1" ?w2 0 0]
            by (simp add: Let_def)
          show "outbox ?w2 = outbox w @ item_sends e p c v (msg # rest) w 0" by (rule first2)
          show "\<not> fails_critically e p c v (msg # rest) w 0 err'" for err'
            using item Inl False by (auto simp: fails_critically_def world_before_start)
        qed
        then show ?thesis by blast
      next
        case crit: True
        with Cons.prems True item Inl have r: "r = Inl err" and w': "w' = ?w2"
          by (simp_all add: Let_def)
        have f: "fails_critically e p c v (msg # rest) w 0 err' \<longleftrightarrow> err' = err" for err'
          using True item Inl crit by (auto simp: fails_critically_def world_before_start)
        have "attempts e p c v (msg # rest) w r w' (Suc 0)"
          unfolding attempts_def using r w' first2 f by simp
        then show ?thesis by blast
      qed
    qed
  qed
qed

lemma attempts_result:
  assumes "attempts e p c v plan w r w' k" and "\<And>err. r = Inl err \<longleftrightarrow> r' = Inl err"
  shows "attempts e p c v plan w r' w' k"
proof -
  have "r' = Inr result \<Longrightarrow> \<exists>counts. r = Inr counts" for result
    using assms(2) by (cases r) auto
  with assms show ?thesis unfolding attempts_def by blast
qed

lemma sorted_owners:
  assumes "\<And>i j. i \<le> j \<Longrightarrow> j < k \<Longrightarrow> g i \<le> g j"
  shows "sorted (concat (map (\<lambda>i. map (\<lambda>out. g i) (sends i)) [0..<k]))"
  using assms
proof (induction k)
  case 0
  show ?case by simp
next
  case (Suc k)
  have "sorted (concat (map (\<lambda>i. map (\<lambda>out. g i) (sends i)) [0..<k]))"
    using Suc by simp
  moreover have "sorted (map (\<lambda>out. g k) (sends k))"
    by (induction "sends k") (simp_all add: sorted_iff_nth_mono)
  moreover have "x \<le> y"
    if "x \<in> set (concat (map (\<lambda>i. map (\<lambda>out. g i) (sends i)) [0..<k]))"
      and "y \<in> set (map (\<lambda>out. g k) (sends k))" for x y
  proof -
    from that(1) obtain i where "i < k" and "x = g i" by auto
    moreover from that(2) have "y = g k" by auto
    ultimately show ?thesis using Suc.prems [of i k] by simp
  qed
  ultimately show ?case by (simp add: sorted_append)
qed

section \<open>Properties of the orchestrator\<close>

lemma completeConversation_ok:
  "query_error e w Q_complete = None \<Longrightarrow>
     completeConversation e w c =
       (Inr (), w\<lparr>bot_conversations :=
          map (\<lambda>r. if conv_id r = c
                    then r\<lparr>conv_status := COMPLETED, conversation_ended_at := Some (now e)\<rparr>
                    else r)
            (bot_conversations w)\<rparr>)"
  by (simp add: completeConversation_def db_query_def then_do_def)

lemma failConversation_ok:
  "query_error e w Q_fail = None \<Longrightarrow>
     failConversation e w c why =
       (Inr (), w\<lparr>bot_conversations :=
          map (\<lambda>r. if conv_id r = c
                    then r\<lparr>conv_status := FAILED, conversation_ended_at := Some (now e),
                           failure_reason := why\<rparr>
                    else r)
            (bot_conversations w)\<rparr>)"
  by (simp add: failConversation_def db_query_def then_do_def)

lemma completed_rows:
  assumes "r \<in> set (map (\<lambda>r. if conv_id r = c
                    then r\<lparr>conv_status := COMPLETED, conversation_ended_at := t\<rparr>
                    else r) rows)"
    and "conv_id r = c"
  shows "conv_status r = COMPLETED"
proof -
  from assms(1) obtain x where
    "r = (if conv_id x = c then x\<lparr>conv_status := COMPLETED, conversation_ended_at := t\<rparr> else x)"
    unfolding set_map by blast
  with assms(2) show ?thesis by (cases "conv_id x = c") simp_all
qed

lemma failed_rows:
  assumes "r \<in> set (map (\<lambda>r. if conv_id r = c
                    then r\<lparr>conv_status := FAILED, conversation_ended_at := t,
                           failure_reason := why\<rparr>
                    else r) rows)"
    and "conv_id r = c"
  shows "conv_status r = FAILED"
proof -
  from assms(1) obtain x where
    "r = (if conv_id x = c then x\<lparr>conv_status := FAILED, conversation_ended_at := t,
                           failure_reason := why\<rparr> else x)"
    unfolding set_map by blast
  with assms(2) show ?thesis by (cases "conv_id x = c") simp_all
qed

lemma completeConversation_status:
  assumes "query_error e w Q_complete = None"
    and "r \<in> set (bot_conversations (snd (completeConversation e w c)))" and "conv_id r = c"
  shows "conv_status r = COMPLETED"
proof -
  have rows: "bot_conversations (snd (completeConversation e w c)) =
      map (\<lambda>r. if conv_id r = c
                then r\<lparr>conv_status := COMPLETED, conversation_ended_at := Some (now e)\<rparr>
                else r) (bot_conversations w)"
    by (simp add: completeConversation_ok [OF assms(1)])
  have m: "r \<in> set (map (\<lambda>r. if conv_id r = c
                then r\<lparr>conv_status := COMPLETED, conversation_ended_at := Some (now e)\<rparr>
                else r) (bot_conversations w))"
    using assms(2) unfolding rows .
  show ?thesis by (rule completed_rows [OF m assms(3)])
qed

lemma failConversation_status:
  assumes "query_error e w Q_fail = None"
    and "r \<in> set (bot_conversations (snd (failConversation e w c why)))" and "conv_id r = c"
  shows "conv_status r = FAILED"
proof -
  have rows: "bot_conversations (snd (failConversation e w c why)) =
      map (\<lambda>r. if conv_id r = c
                then r\<lparr>conv_status := FAILED, conversation_ended_at := Some (now e),
                       failure_reason := why\<rparr>
                else r) (bot_conversations w)"
    by (simp add: failConversation_ok [OF assms(1)])
  have m: "r \<in> set (map (\<lambda>r. if conv_id r = c
                then r\<lparr>conv_status := FAILED, conversation_ended_at := Some (now e),
                       failure_reason := why\<rparr>
                else r) (bot_conversations w))"
    using assms(2) unfolding rows .
  show ?thesis by (rule failed_rows [OF m assms(3)])
qed

lemma handleIncomingMessage_admitted:
  assumes "admit e w botPhoneNumber message =
             (Inr (Admitted userPhone userName conversationId cid), w1)"
  shows "handleIncomingMessage e w botPhoneNumber message =
           snd (deliver e w1 userPhone userName conversationId cid)"
  using assms
  by (cases "deliver e w1 userPhone userName conversationId cid")
     (auto simp: handleIncomingMessage_def then_do_def split: sum.splits)

lemma deliver_dispatched:
  assumes "getCampaignMessages e w1 cid = (Inr plan, w1')"
    and "plan \<noteq> []"
    and "sendSequentialMessages e w1' userPhone conversationId plan
           [(''nombre'', userName), (''telefono'', js userPhone)] = (Inr result, w2)"
  shows "deliver e w1 userPhone userName conversationId cid =
           (if sent result = length plan then completeConversation e w2 conversationId
            else if failed result = length plan
            then failConversation e w2 conversationId (Some ''Todos los mensajes fallaron'')
            else completeConversation e w2 conversationId)"
  using assms by (simp add: deliver_def then_do_def Let_def)

subsection \<open>One message through the sample world\<close>

lemma info_text: "js ''info'' \<noteq> []" "trim (js ''info'') = js ''info''" "js ''Ana'' \<noteq> []"
  by (simp_all add: js_def trim_def is_space_def)

lemma info_detected:
  "first_campaign_match (js ''info'') [info_campaign] =
     Some \<lparr>campaignId = 1, campaignName = ''Yanachaga'', matchedKeyword = js ''info'',
           matchType = KEYWORD, match_priority = 10\<rparr>"
  by (simp add: info_campaign_def matchKeywords_def excluded_hit_def array_of_def
        containsKeyword_def ascii_defs)

lemma campaign_world_simps:
  "blocked_numbers campaign_world = []" "user_rate_limit campaign_world = []"
  "bot_conversations campaign_world = []" "bot_message_log campaign_world = []"
  "campaigns campaign_world = [info_campaign]"
  "messages campaign_world = [text_item 10 1 ''Hola'', text_item 20 2 ''Adios'']"
  "message_media campaign_world = []" "outbox campaign_world = []"
  by (simp_all add: campaign_world_def empty_world_simps)

lemma info_campaign_simps:
  "campaign_active info_campaign" "\<not> campaign_deleted info_campaign"
  "priority info_campaign = 10"
  by (simp_all add: info_campaign_def)

lemma no_active_conversation:
  assumes "\<forall>w q. query_error e w q = None"
  shows "getActiveConversation e campaign_world ''51999000111@c.us'' None
           = (Inr None, campaign_world)"
  using assms
  by (simp add: getActiveConversation_def db_query_def then_do_def campaign_world_simps)

lemma new_user:
  assumes "\<forall>w q. query_error e w q = None"
  shows "checkRateLimit e campaign_world ''51999000111@c.us''
           = (\<lparr>allowed = True, reason = NEW_USER\<rparr>, campaign_world)"
  using assms
  by (simp add: checkRateLimit_def checkRateLimit_try_def db_query_def then_do_def
        campaign_world_simps)

lemma detect_info:
  assumes "\<forall>w q. query_error e w q = None"
  shows "detectCampaign e campaign_world (js ''info'') =
           (Inr (Some \<lparr>campaignId = 1, campaignName = ''Yanachaga'',
                        matchedKeyword = js ''info'', matchType = KEYWORD,
                        match_priority = 10\<rparr>), campaign_world)"
proof -
  have "filter (\<lambda>c. campaign_active c \<and> \<not> campaign_deleted c) [info_campaign] = [info_campaign]"
    by (simp add: info_campaign_simps)
  then show ?thesis
    using assms
    by (simp add: detectCampaign_def db_query_def then_do_def campaign_world_simps info_text
          info_detected del: first_campaign_match.simps)
qed

lemma admit_info:
  assumes "now e = 1000" and "\<forall>w q. query_error e w q = None"
    and "\<forall>w. getContact_result e w = Inr (Some (js ''Ana''), None)"
  shows "admit e campaign_world (Some ''51900000000'') info_message =
           (Inr (Admitted ''51999000111@c.us'' (js ''Ana'') 1 1), admitted_world)"
proof -
  have sender: "\<not> includes_js ''51999000111@c.us'' ''@g.us''" by simp
  show ?thesis
    using assms sender
    by (simp add: admit_def info_message_def info_text no_active_conversation new_user
          detect_info campaign_world_simps updateRateLimit_def createConversation_def
          db_query_def then_do_def admitted_world_def Let_def del: includes_js.simps)
qed

lemma admitted_world_simps:
  "bot_conversations admitted_world =
     [\<lparr>conv_id = 1, conv_user_phone = ''51999000111@c.us'', conv_user_name = js ''Ana'',
       conv_campaign_id = 1, trigger_message = js ''info'', matched_keyword = js ''info'',
       conv_match_type = KEYWORD, corse = Some ''51900000000'', conv_status = INITIATED,
       messages_sent = 0, conversation_started_at = 1000, conversation_ended_at = None,
       failure_reason = None\<rparr>]"
  "bot_message_log admitted_world = []"
  "messages admitted_world = [text_item 10 1 ''Hola'', text_item 20 2 ''Adios'']"
  "outbox admitted_world = []"
  by (simp_all add: admitted_world_def campaign_world_simps)

lemma plan_fetched:
  assumes "\<forall>w q. query_error e w q = None"
  shows "getCampaignMessages e admitted_world 1 =
           (Inr [text_item 10 1 ''Hola'', text_item 20 2 ''Adios''], admitted_world)"
  using assms
  by (simp add: getCampaignMessages_def db_query_def then_do_def admitted_world_simps
        text_item_def)

lemma closed_session_env_simps:
  "now closed_session_env = 1000"
  "query_error closed_session_env w q = None"
  "sendMessage_result closed_session_env w out = Inl ''Session closed''"
  "getContact_result closed_session_env w = Inr (Some (js ''Ana''), None)"
  "substitute closed_session_env text variables = text"
  by (simp_all add: closed_session_env_def quiet_env_simps)

lemma session_closed_critical: "is_critical ''Session closed''"
  by (simp add: is_critical_def)

lemma dispatch_aborted:
  "sendSequentialMessages closed_session_env admitted_world ''51999000111@c.us'' 1
     [text_item 10 1 ''Hola'', text_item 20 2 ''Adios'']
     [(''nombre'', js ''Ana''), (''telefono'', js ''51999000111@c.us'')]
   = (Inl ''Session closed'',
      admitted_world\<lparr>bot_message_log :=
        [\<lparr>log_conversation_id = 1, log_message_id = 10, delivery_status = FAILED_TO_SEND,
          whatsapp_message_id = None, error_message = Some ''Session closed''\<rparr>]\<rparr>)"
  by (simp add: sendSequentialMessages_def supported_def send_item_def sendTextMessage_def
        client_sendMessage_def replaceVariables_def logMessageFailed_def db_query_def
        then_do_def text_item_def Let_def closed_session_env_simps session_closed_critical
        admitted_world_simps)

section \<open>The claims about dispatch and orchestration\<close>

text \<open>
  Claim C10: for every plan, the result that the dispatcher returns has
  \<open>sent + failed \<le> total\<close>, where \<open>total\<close> is the length of the plan; an item whose type
  is not one of \<open>TEXT\<close>, \<open>IMAGE\<close>, \<open>AUDIO\<close>, \<open>DOCUMENT\<close>, \<open>GALLERY\<close> is counted neither
  as sent nor as failed, so that \<open>sent + failed < total\<close> whenever the plan holds such an
  item.
\<close>

theorem dispatch_result_counts:
  assumes "sendSequentialMessages e w userPhone conversationId plan variables = (Inr result, w')"
  shows "total result = length plan
     \<and> sent result + failed result = length (filter (\<lambda>m. supported (type_code m)) plan)
     \<and> sent result + failed result \<le> total result
     \<and> ((\<exists>m\<in>set plan. \<not> supported (type_code m)) \<longrightarrow> sent result + failed result < total result)"
  using assms
proof (cases rule: sendSequentialMessages_cases)
  case (aborted err)
  then show ?thesis by simp
next
  case (returned sc fc)
  from returned(1) have sum: "sc + fc = length (filter (\<lambda>m. supported (type_code m)) plan)"
    using send_loop_counts by fastforce
  have le: "length (filter (\<lambda>m. supported (type_code m)) plan) \<le> length plan"
    by (rule length_filter_le)
  have lt: "length (filter (\<lambda>m. supported (type_code m)) plan) < length plan"
    if "\<exists>m\<in>set plan. \<not> supported (type_code m)"
    using that by (blast intro: length_filter_less)
  from returned(2) sum le lt show ?thesis by auto
qed

text \<open>
  Claim C3, as stated, has the dispatcher send the items of every plan in ascending
  \<open>sort_order\<close>, the plan that lists \<open>sort_order\<close> 2 before \<open>sort_order\<close> 1 included. The
  dispatcher sends that plan as it is listed: the item with \<open>sort_order\<close> 2 first.
\<close>

theorem dispatch_in_listed_order:
  "map sort_order [text_item 20 2 ''second'', text_item 10 1 ''first''] = [2, 1]
   \<and> map body (outbox (snd (sendSequentialMessages quiet_env empty_world ''51999000111@c.us'' 1
        [text_item 20 2 ''second'', text_item 10 1 ''first''] [])))
     = [Text_body (Some (js ''second'')), Text_body (Some (js ''first''))]
   \<and> map log_message_id (bot_message_log (snd (sendSequentialMessages quiet_env empty_world
        ''51999000111@c.us'' 1 [text_item 20 2 ''second'', text_item 10 1 ''first''] [])))
     = [20, 10]"
  by (simp add: dispatch_defs quiet_env_simps empty_world_simps)

text \<open>
  Claim C3, amended: the dispatcher works through the items in the order in which the plan
  lists them, whatever the database and the transport do. The messages that a dispatch
  sends are those of the first \<open>k\<close> items of the plan, item after item in the order of the
  plan, the sends of one item before those of the next; none of the items before the last
  of these fails critically; a dispatch that returns a result has worked through the whole
  plan, and one that throws has stopped at the item that failed critically, having sent
  nothing for a later item. The plan that \<open>getCampaignMessages\<close> returns is listed in
  ascending \<open>sort_order\<close>, so that the \<open>sort_order\<close> of the items of the successive sends
  of its dispatch never decreases.
\<close>

theorem dispatch_follows_plan_order:
  assumes "sendSequentialMessages e w userPhone conversationId plan variables = (r, w')"
  shows "\<exists>k\<le>length plan.
      outbox w' = outbox w
        @ concat (map (item_sends e userPhone conversationId variables plan w) [0..<k])
    \<and> (\<forall>i<k. \<forall>err. fails_critically e userPhone conversationId variables plan w i err
           \<longrightarrow> Suc i = k \<and> r = Inl err)
    \<and> (\<forall>result. r = Inr result \<longrightarrow> k = length plan)
    \<and> (\<forall>err. r = Inl err
           \<longrightarrow> 0 < k \<and> fails_critically e userPhone conversationId variables plan w (k - 1) err)
    \<and> (getCampaignMessages e w0 cid = (Inr plan, w)
           \<longrightarrow> sorted (map sort_order plan)
             \<and> sorted (concat (map (\<lambda>i. map (\<lambda>out. sort_order (plan ! i))
                                       (item_sends e userPhone conversationId variables plan w i))
                                [0..<k])))"
proof -
  obtain k where k: "attempts e userPhone conversationId variables plan w r w' k"
    using assms
  proof (cases rule: sendSequentialMessages_cases)
    case (aborted err)
    then obtain k where
      "attempts e userPhone conversationId variables plan w
         (Inl err :: error + nat \<times> nat) w' k"
      using send_loop_attempts by blast
    then have "attempts e userPhone conversationId variables plan w r w' k"
      by (rule attempts_result) (simp add: aborted(2))
    then show ?thesis by (rule that)
  next
    case (returned sc fc)
    then obtain k where
      "attempts e userPhone conversationId variables plan w
         (Inr (sc, fc) :: error + nat \<times> nat) w' k"
      using send_loop_attempts by blast
    then have "attempts e userPhone conversationId variables plan w r w' k"
      by (rule attempts_result) (simp add: returned(2))
    then show ?thesis by (rule that)
  qed
  have "sorted (map sort_order plan)
      \<and> sorted (concat (map (\<lambda>i. map (\<lambda>out. sort_order (plan ! i))
                                (item_sends e userPhone conversationId variables plan w i))
                         [0..<k]))"
    if "getCampaignMessages e w0 cid = (Inr plan, w)"
  proof
    from that show s: "sorted (map sort_order plan)" by (rule getCampaignMessages_sorted)
    from k have "k \<le> length plan" by (simp add: attempts_def)
    then have "sort_order (plan ! i) \<le> sort_order (plan ! j)" if "i \<le> j" and "j < k" for i j
      using s that sorted_iff_nth_mono [of "map sort_order plan"] by simp
    then show "sorted (concat (map (\<lambda>i. map (\<lambda>out. sort_order (plan ! i))
                                (item_sends e userPhone conversationId variables plan w i))
                         [0..<k]))"
      by (rule sorted_owners)
  qed
  with k show ?thesis unfolding attempts_def by blast
qed

text \<open>
  Claim C4: after a dispatch that returns a result, the orchestrator calls
  \<open>completeConversation\<close> if \<open>sent\<close> equals the number of items of the plan, otherwise
  \<open>failConversation\<close> if \<open>failed\<close> equals that number, and \<open>completeConversation\<close> in
  every other case; the conversation ends in \<open>COMPLETED\<close>, \<open>FAILED\<close> and \<open>COMPLETED\<close>
  respectively.
\<close>

theorem outcome_policy:
  assumes "admit e w botPhoneNumber message =
             (Inr (Admitted userPhone userName conversationId cid), w1)"
    and "getCampaignMessages e w1 cid = (Inr plan, w1')"
    and "plan \<noteq> []"
    and "sendSequentialMessages e w1' userPhone conversationId plan
           [(''nombre'', userName), (''telefono'', js userPhone)] = (Inr result, w2)"
    and "query_error e w2 Q_complete = None" and "query_error e w2 Q_fail = None"
  shows "handleIncomingMessage e w botPhoneNumber message =
           snd (if sent result = length plan then completeConversation e w2 conversationId
                else if failed result = length plan
                then failConversation e w2 conversationId (Some ''Todos los mensajes fallaron'')
                else completeConversation e w2 conversationId)
     \<and> (\<forall>c\<in>set (bot_conversations (handleIncomingMessage e w botPhoneNumber message)).
           conv_id c = conversationId \<longrightarrow>
           conv_status c = (if sent result = length plan then COMPLETED
                            else if failed result = length plan then FAILED
                            else COMPLETED))"
proof
  show final: "handleIncomingMessage e w botPhoneNumber message =
           snd (if sent result = length plan then completeConversation e w2 conversationId
                else if failed result = length plan
                then failConversation e w2 conversationId (Some ''Todos los mensajes fallaron'')
                else completeConversation e w2 conversationId)"
    unfolding handleIncomingMessage_admitted [OF assms(1)]
      deliver_dispatched [OF assms(2,3,4)] ..
  show "\<forall>c\<in>set (bot_conversations (handleIncomingMessage e w botPhoneNumber message)).
           conv_id c = conversationId \<longrightarrow>
           conv_status c = (if sent result = length plan then COMPLETED
                            else if failed result = length plan then FAILED
                            else COMPLETED)"
  proof (intro ballI impI)
    fix c
    assume c: "c \<in> set (bot_conversations (handleIncomingMessage e w botPhoneNumber message))"
      and i: "conv_id c = conversationId"
    show "conv_status c = (if sent result = length plan then COMPLETED
                            else if failed result = length plan then FAILED
                            else COMPLETED)"
    proof (cases "sent result = length plan")
      case True
      with c final i show ?thesis using completeConversation_status [OF assms(5)] by simp
    next
      case False
      show ?thesis
      proof (cases "failed result = length plan")
        case True
        with c final i False show ?thesis using failConversation_status [OF assms(6)] by simp
      next
        case f: False
        with c final i False show ?thesis using completeConversation_status [OF assms(5)] by simp
      qed
    qed
  qed
qed

lemma flaky_env_simps:
  "now flaky_env = 1000"
  "query_error flaky_env w q = None"
  "sendMessage_result flaky_env w out =
     (if body out = Text_body (Some (js ''Hola'')) then Inl ''Evaluation failed''
      else Inr ''true_51999000111@c.us_3EB0'')"
  "getContact_result flaky_env w = Inr (Some (js ''Ana''), None)"
  "substitute flaky_env text variables = text"
  by (simp_all add: flaky_env_def quiet_env_simps)

lemma texts_differ: "js ''Adios'' \<noteq> js ''Hola''" "js ''Hola'' \<noteq> []" "js ''Adios'' \<noteq> []"
  by (simp_all add: js_def)

lemma not_critical: "\<not> is_critical ''Evaluation failed''"
  by (simp add: is_critical_def)

lemma flaky_dispatch:
  "fst (sendSequentialMessages flaky_env admitted_world ''51999000111@c.us'' 1
          [text_item 10 1 ''Hola'', text_item 20 2 ''Adios'']
          [(''nombre'', js ''Ana''), (''telefono'', js ''51999000111@c.us'')])
     = Inr \<lparr>success = True, total = 2, sent = 1, failed = 1\<rparr>
   \<and> map conv_id (bot_conversations (snd (sendSequentialMessages flaky_env admitted_world
          ''51999000111@c.us'' 1 [text_item 10 1 ''Hola'', text_item 20 2 ''Adios'']
          [(''nombre'', js ''Ana''), (''telefono'', js ''51999000111@c.us'')]))) = [1]"
  by (simp add: sendSequentialMessages_def supported_def send_item_def sendTextMessage_def
        client_sendMessage_def replaceVariables_def logMessageFailed_def logMessageSent_def
        incrementMessagesSent_def db_query_def no_options_def
        then_do_def text_item_def Let_def flaky_env_simps not_critical texts_differ
        admitted_world_simps)

theorem outcome_policy_witness:
  "map conv_status (bot_conversations (handleIncomingMessage flaky_env campaign_world
      (Some ''51900000000'') info_message)) = [COMPLETED]"
proof -
  let ?plan = "[text_item 10 1 ''Hola'', text_item 20 2 ''Adios'']"
  let ?d = "sendSequentialMessages flaky_env admitted_world ''51999000111@c.us'' 1 ?plan
              [(''nombre'', js ''Ana''), (''telefono'', js ''51999000111@c.us'')]"
  let ?r = "\<lparr>success = True, total = 2, sent = 1, failed = 1\<rparr>"
  have a: "admit flaky_env campaign_world (Some ''51900000000'') info_message =
           (Inr (Admitted ''51999000111@c.us'' (js ''Ana'') 1 1), admitted_world)"
    by (rule admit_info) (simp_all add: flaky_env_simps)
  have p: "getCampaignMessages flaky_env admitted_world 1 = (Inr ?plan, admitted_world)"
    by (rule plan_fetched) (simp add: flaky_env_simps)
  have n: "?plan \<noteq> []" by simp
  have d: "?d = (Inr ?r, snd ?d)"
    using flaky_dispatch by (simp add: prod_eq_iff)
  have q: "query_error flaky_env (snd ?d) Q_complete = None"
    "query_error flaky_env (snd ?d) Q_fail = None"
    by (simp_all add: flaky_env_simps)
  note policy = outcome_policy [OF a p n d q]
  have ids: "map conv_id (bot_conversations (snd ?d)) = [1]" using flaky_dispatch by simp
  then obtain c where c: "bot_conversations (snd ?d) = [c]" "conv_id c = 1" by auto
  from policy [THEN conjunct1] c show ?thesis
    by (simp add: completeConversation_ok [OF q(1)] del: One_nat_def)
qed

lemma stuck_world_simps:
  "bot_conversations stuck_world = bot_conversations admitted_world"
  "blocked_numbers stuck_world = blocked_numbers admitted_world"
  by (simp_all add: stuck_world_def)

lemma sender_locked_out:
  "handleIncomingMessage quiet_env stuck_world (Some ''51900000000'') info_message = stuck_world"
proof -
  have sender: "\<not> includes_js ''51999000111@c.us'' ''@g.us''" by simp
  have "admit quiet_env stuck_world (Some ''51900000000'') info_message = (Inr Ignored, stuck_world)"
    using sender
    by (simp add: admit_def info_message_def info_text quiet_env_simps getActiveConversation_def
          db_query_def then_do_def stuck_world_simps admitted_world_simps Let_def
          del: includes_js.simps)
  then show ?thesis by (simp add: handleIncomingMessage_def then_do_def)
qed

text \<open>
  For every plan: a critical error at an item ends the loop there, and when the dispatch
  throws, \<open>handleIncomingMessage\<close> leaves the world as the dispatcher left it.
\<close>

lemma critical_error_aborts:
  assumes "supported (type_code msg)"
    and "send_item e w userPhone conversationId msg variables = (Inl err, w1)"
    and "is_critical err"
  shows "send_loop e userPhone conversationId variables (msg # rest) successCount failCount w
           = (Inl err, logMessageFailed e w1 conversationId (msg_id msg) err)"
  using assms by (simp add: Let_def)

lemma thrown_dispatch_is_only_logged:
  assumes "admit e w botPhoneNumber message =
             (Inr (Admitted userPhone userName conversationId cid), w1)"
    and "getCampaignMessages e w1 cid = (Inr plan, w1')"
    and "plan \<noteq> []"
    and "sendSequentialMessages e w1' userPhone conversationId plan
           [(''nombre'', userName), (''telefono'', js userPhone)] = (Inl err, w2)"
  shows "handleIncomingMessage e w botPhoneNumber message = w2"
proof -
  from assms(2,3,4)
  have "deliver e w1 userPhone userName conversationId cid = (Inl err, w2)"
    by (simp add: deliver_def then_do_def Let_def)
  then show ?thesis
    unfolding handleIncomingMessage_admitted [OF assms(1)] by simp
qed

text \<open>
  Claim C1: when a send fails with a critical error, the dispatcher ends the dispatch at
  once and the error reaches the orchestrator, which marks the conversation \<open>FAILED\<close>.
  The dispatcher does end the dispatch (the second item is never tried), and the error does
  reach \<open>handleIncomingMessage\<close>; its \<open>catch\<close> only logs. The conversation stays
  \<open>INITIATED\<close>, and the next message of the same sender is ignored because of it.
\<close>

theorem session_closed_leaves_conversation_open:
  "handleIncomingMessage closed_session_env campaign_world (Some ''51900000000'') info_message
     = stuck_world
   \<and> map conv_status (bot_conversations stuck_world) = [INITIATED]
   \<and> map log_message_id (bot_message_log stuck_world) = [10]
   \<and> handleIncomingMessage quiet_env stuck_world (Some ''51900000000'') info_message
     = stuck_world"
proof -
  have a: "admit closed_session_env campaign_world (Some ''51900000000'') info_message =
           (Inr (Admitted ''51999000111@c.us'' (js ''Ana'') 1 1), admitted_world)"
    by (rule admit_info) (simp_all add: closed_session_env_simps)
  have p: "getCampaignMessages closed_session_env admitted_world 1 =
           (Inr [text_item 10 1 ''Hola'', text_item 20 2 ''Adios''], admitted_world)"
    by (rule plan_fetched) (simp add: closed_session_env_simps)
  have d: "deliver closed_session_env admitted_world ''51999000111@c.us'' (js ''Ana'') 1 1
      = (Inl ''Session closed'', stuck_world)"
    by (simp add: deliver_def p dispatch_aborted then_do_def Let_def stuck_world_def
          del: One_nat_def)
  have h: "handleIncomingMessage closed_session_env campaign_world (Some ''51900000000'')
             info_message = stuck_world"
    unfolding handleIncomingMessage_admitted [OF a] d by simp
  have s: "map conv_status (bot_conversations stuck_world) = [INITIATED]"
    by (simp add: stuck_world_simps admitted_world_simps)
  have l: "map log_message_id (bot_message_log stuck_world) = [10]"
    by (simp add: stuck_world_def)
  from h s l sender_locked_out show ?thesis by simp
qed

subsection \<open>The dispatcher on sample plans\<close>

theorem dispatch_result_counts_witness:
  "fst (sendSequentialMessages quiet_env empty_world ''51999000111@c.us'' 1
          [text_item 10 1 ''Hola'', (text_item 20 2 ''Adios'')\<lparr>type_code := ''STICKER''\<rparr>] [])
     = Inr \<lparr>success = True, total = 2, sent = 1, failed = 0\<rparr>
   \<and> sent \<lparr>success = True, total = 2, sent = 1, failed = 0\<rparr>
        + failed \<lparr>success = True, total = 2, sent = 1, failed = 0\<rparr>
      < total \<lparr>success = True, total = 2, sent = 1, failed = 0\<rparr>"
proof -
  let ?plan = "[text_item 10 1 ''Hola'', (text_item 20 2 ''Adios'')\<lparr>type_code := ''STICKER''\<rparr>]"
  let ?d = "sendSequentialMessages quiet_env empty_world ''51999000111@c.us'' 1 ?plan []"
  let ?r = "\<lparr>success = True, total = 2, sent = 1, failed = 0\<rparr>"
  have f: "fst ?d = Inr ?r"
    by (simp add: dispatch_defs quiet_env_simps empty_world_simps)
  then have d: "?d = (Inr ?r, snd ?d)" by (simp add: prod_eq_iff)
  have u: "\<exists>m\<in>set ?plan. \<not> supported (type_code m)"
    by (simp add: supported_def text_item_def)
  from dispatch_result_counts [OF d] u have "sent ?r + failed ?r < total ?r" by blast
  with f show ?thesis by blast
qed

lemma reversed_world_simps:
  "messages reversed_world = [text_item 20 2 ''second'', text_item 10 1 ''first'']"
  "bot_message_log reversed_world = []" "bot_conversations reversed_world = []"
  "outbox reversed_world = []"
  by (simp_all add: reversed_world_def empty_world_simps)

theorem dispatch_follows_plan_order_witness:
  "sorted (map sort_order [text_item 10 1 ''first'', text_item 20 2 ''second''])
   \<and> map body (outbox (snd (sendSequentialMessages quiet_env reversed_world
        ''51999000111@c.us'' 1 [text_item 10 1 ''first'', text_item 20 2 ''second''] [])))
     = [Text_body (Some (js ''first'')), Text_body (Some (js ''second''))]"
proof -
  let ?plan = "[text_item 10 1 ''first'', text_item 20 2 ''second'']"
  let ?d = "sendSequentialMessages quiet_env reversed_world ''51999000111@c.us'' 1 ?plan []"
  have d: "?d = (fst ?d, snd ?d)" by simp
  have g: "getCampaignMessages quiet_env reversed_world 1 = (Inr ?plan, reversed_world)"
    by (simp add: getCampaignMessages_def db_query_def then_do_def quiet_env_simps
          reversed_world_simps text_item_def)
  from dispatch_follows_plan_order [OF d, of reversed_world 1] g
  have "sorted (map sort_order ?plan)" by blast
  moreover have "map body (outbox (snd ?d))
      = [Text_body (Some (js ''first'')), Text_body (Some (js ''second''))]"
    by (simp add: dispatch_defs quiet_env_simps reversed_world_simps)
  ultimately show ?thesis by blast
qed

end
